theory Spec2Isabelle
  imports Complex_Main "HOL-Library.AList" "HOL-Library.Sublist"
begin

section \<open>Domain models (core/models.py)\<close>

datatype IncidentStatus = NEW | ACKNOWLEDGED | IN_PROGRESS | RESOLVED

datatype IncidentSeverity = LOW | MEDIUM | HIGH | CRITICAL

datatype py_error = ValueError | IndexError

text \<open>
  Points in time (\<open>datetime\<close>, \<open>time.time()\<close>) and Python floats are real numbers of
  seconds. The wall clock is an input of the program: the \<open>k\<close>-th reading the program
  takes is \<open>clk k\<close>.
\<close>

type_synonym clock = "nat \<Rightarrow> real"

record MetricSample =
  sample_timestamp :: real
  cpu_percent :: real
  memory_percent :: real

record Incident =
  "identifier" :: string
  timestamp :: real
  category :: string
  severity :: IncidentSeverity
  status :: IncidentStatus
  region :: string
  acknowledged :: bool
  description :: "string option"
  last_update :: real
  autoresolve_after :: "real option"
  location :: "(int \<times> int) option"

text \<open>
  \<open>Incident.advance_status\<close>; \<open>t\<close> is the reading of \<open>datetime.now(UTC)\<close> taken
  by its last statement.
\<close>

definition advance_status :: "real \<Rightarrow> Incident \<Rightarrow> Incident" where
  "advance_status t inc =
     (if status inc = NEW then inc\<lparr>status := ACKNOWLEDGED, acknowledged := True\<rparr>
      else if status inc = ACKNOWLEDGED then inc\<lparr>status := IN_PROGRESS\<rparr>
      else if status inc = IN_PROGRESS then inc\<lparr>status := RESOLVED\<rparr>
      else inc)\<lparr>last_update := t\<rparr>"

section \<open>The random generator (numpy.random.Generator)\<close>

text \<open>
  numpy is not part of the repository: the generator is a parameter. Its state has type
  \<open>'g\<close>; every method is a function of its arguments and the state, returning the draw
  and the next state, or the exception numpy raises for the arguments.
\<close>

record 'g numpy_rng =
  default_rng :: "int \<Rightarrow> py_error + 'g"
  integers :: "int \<Rightarrow> int \<Rightarrow> 'g \<Rightarrow> py_error + (int \<times> 'g)"
  choice :: "string list \<Rightarrow> 'g \<Rightarrow> py_error + (string \<times> 'g)"
  uniform :: "real \<Rightarrow> real \<Rightarrow> 'g \<Rightarrow> py_error + (real \<times> 'g)"
  poisson :: "real \<Rightarrow> 'g \<Rightarrow> py_error + (int \<times> 'g)"
  random :: "'g \<Rightarrow> py_error + (real \<times> 'g)"
  normal2 :: "real \<Rightarrow> real \<Rightarrow> 'g \<Rightarrow> py_error + ((real \<times> real) \<times> 'g)"
  exponential :: "real \<Rightarrow> 'g \<Rightarrow> py_error + (real \<times> 'g)"

section \<open>Configuration (core/config.py)\<close>

record FeedConfig =
  metrics_hz :: real
  logs_per_sec :: real
  incidents_per_min :: real
  incident_autoresolve_sec :: "int \<times> int"

record BufferConfig =
  metrics_seconds :: int
  max_logs :: int
  max_incidents :: int

record MapConfig =
  grid :: "int \<times> int"
  hotspot_prob :: real
  max_markers :: int

section \<open>Feeds (core/feeds.py)\<close>

definition REGIONS :: "string list" where
  "REGIONS = [''us-east'', ''us-west'', ''eu-central'', ''ap-south'', ''sa-east'']"

definition INCIDENT_TYPES :: "string list" where
  "INCIDENT_TYPES = [''network'', ''database'', ''compute'', ''storage'', ''security'']"

subsection \<open>FeedState\<close>

record 'g FeedState =
  seed :: int
  rng :: 'g

text \<open>The constructor with \<open>__post_init__\<close>.\<close>

definition FeedState_init :: "'g numpy_rng \<Rightarrow> int \<Rightarrow> py_error + 'g FeedState" where
  "FeedState_init np s =
     (case default_rng np s of
        Inl e \<Rightarrow> Inl e
      | Inr g \<Rightarrow> Inr \<lparr>seed = s, rng = g\<rparr>)"

text \<open>\<open>FeedState.reset\<close>: the generator first, then the stored seed.\<close>

definition FeedState_reset ::
  "'g numpy_rng \<Rightarrow> int option \<Rightarrow> 'g FeedState \<Rightarrow> py_error + 'g FeedState" where
  "FeedState_reset np sd st =
     (case default_rng np (case sd of None \<Rightarrow> seed st | Some s \<Rightarrow> s) of
        Inl e \<Rightarrow> Inl e
      | Inr g \<Rightarrow>
          (let st1 = st\<lparr>rng := g\<rparr>
           in Inr (case sd of None \<Rightarrow> st1 | Some s \<Rightarrow> st1\<lparr>seed := s\<rparr>)))"

subsection \<open>BaseFeed and MetricsFeed\<close>

text \<open>The asyncio task of a feed is not modelled; \<open>running\<close> is its \<open>_running\<close> flag.\<close>

record 'g BaseFeed =
  config :: FeedConfig
  buffers :: BufferConfig
  state :: "'g FeedState"
  running :: bool

record 'g MetricsFeed = "'g BaseFeed" +
  cpu :: real
  mem :: real

definition MetricsFeed_init ::
  "FeedConfig \<Rightarrow> BufferConfig \<Rightarrow> 'g FeedState \<Rightarrow> 'g MetricsFeed" where
  "MetricsFeed_init cfg bufs st =
     \<lparr>config = cfg, buffers = bufs, state = st, running = False, cpu = 55, mem = 48\<rparr>"

text \<open>\<open>np.clip(x, lo, hi)\<close> on a scalar: \<open>minimum(hi, maximum(x, lo))\<close>.\<close>

definition clip :: "real \<Rightarrow> real \<Rightarrow> real \<Rightarrow> real" where
  "clip x lo hi = min hi (max x lo)"

text \<open>
  \<open>MetricsFeed.sample\<close>; \<open>t\<close> is the reading of \<open>utc_timestamp()\<close>. The draws follow
  the source's order: the drift pair, the spike, and the second pair only after a spike
  above 5.
\<close>

definition sample ::
  "'g numpy_rng \<Rightarrow> real \<Rightarrow> 'g MetricsFeed \<Rightarrow> py_error + (MetricSample \<times> 'g MetricsFeed)" where
  "sample np t f =
     (case normal2 np 0 2 (rng (state f)) of
        Inl e \<Rightarrow> Inl e
      | Inr (drift, g1) \<Rightarrow>
          (case exponential np 2 g1 of
             Inl e \<Rightarrow> Inl e
           | Inr (spike, g2) \<Rightarrow>
               (case (if spike > 5
                      then (case normal2 np 10 5 g2 of
                              Inl e \<Rightarrow> Inl e
                            | Inr (extra, g3) \<Rightarrow>
                                Inr ((fst drift + fst extra, snd drift + snd extra), g3))
                      else Inr (drift, g2)) of
                  Inl e \<Rightarrow> Inl e
                | Inr (drift', g') \<Rightarrow>
                    (let c = clip (cpu f + fst drift') 1 98;
                         m = clip (mem f + snd drift') 5 95;
                         f' = f\<lparr>state := (state f)\<lparr>rng := g'\<rparr>, cpu := c, mem := m\<rparr>
                     in Inr (\<lparr>sample_timestamp = t, cpu_percent = c, memory_percent = m\<rparr>,
                             f')))))"

text \<open>
  Consecutive calls, as in \<open>[feed.sample() for _ in range(n)]\<close>: the \<open>i\<close>-th call
  reads the clock at \<open>clk (k + i)\<close>.
\<close>

fun samples ::
  "'g numpy_rng \<Rightarrow> clock \<Rightarrow> nat \<Rightarrow> nat \<Rightarrow> 'g MetricsFeed \<Rightarrow>
   py_error + (MetricSample list \<times> 'g MetricsFeed)" where
  "samples np clk k 0 f = Inr ([], f)"
| "samples np clk k (Suc n) f =
     (case sample np (clk k) f of
        Inl e \<Rightarrow> Inl e
      | Inr (s, f1) \<Rightarrow>
          (case samples np clk (Suc k) n f1 of
             Inl e \<Rightarrow> Inl e
           | Inr (ss, f2) \<Rightarrow> Inr (s # ss, f2)))"

text \<open>\<open>MetricsFeed.reset\<close> (stopping the task apart): back to the baselines.\<close>

definition MetricsFeed_reset :: "'g MetricsFeed \<Rightarrow> 'g MetricsFeed" where
  "MetricsFeed_reset f = f\<lparr>running := False, cpu := 55, mem := 48\<rparr>"

subsection \<open>String formatting\<close>

text \<open>
  \<open>f"{n:04d}"\<close>: the decimal digits of \<open>n\<close>, padded with zeros to a width of at
  least four; the sign of a negative number counts in the width and comes first.
\<close>

definition digit_char :: "nat \<Rightarrow> char" where
  "digit_char d = char_of (48 + d)"

fun str_nat :: "nat \<Rightarrow> string" where
  "str_nat n = (if n < 10 then [digit_char n] else str_nat (n div 10) @ [digit_char (n mod 10)])"

declare str_nat.simps [simp del]

definition zfill :: "nat \<Rightarrow> string \<Rightarrow> string" where
  "zfill w s = replicate (w - length s) (CHR ''0'') @ s"

definition format_04d :: "int \<Rightarrow> string" where
  "format_04d i =
     (if i < 0 then CHR ''-'' # zfill 3 (str_nat (nat (- i))) else zfill 4 (str_nat (nat i)))"

text \<open>\<open>str.title()\<close> on ASCII text: a letter after a letter is lowered, any other letter raised.\<close>

definition is_lower :: "char \<Rightarrow> bool" where
  "is_lower c = (97 \<le> (of_char c :: nat) \<and> (of_char c :: nat) \<le> 122)"

definition is_upper :: "char \<Rightarrow> bool" where
  "is_upper c = (65 \<le> (of_char c :: nat) \<and> (of_char c :: nat) \<le> 90)"

fun title_from :: "bool \<Rightarrow> string \<Rightarrow> string" where
  "title_from prev [] = []"
| "title_from prev (c # cs) =
     (if is_lower c then (if prev then c else char_of ((of_char c :: nat) - 32)) # title_from True cs
      else if is_upper c then (if prev then char_of ((of_char c :: nat) + 32) else c) # title_from True cs
      else c # title_from False cs)"

definition title :: "string \<Rightarrow> string" where
  "title s = title_from False s"

text \<open>\<open>xs[i]\<close>: a negative index counts from the end, an index out of range raises.\<close>

definition py_index :: "'a list \<Rightarrow> int \<Rightarrow> py_error + 'a" where
  "py_index xs i =
     (if 0 \<le> i \<and> i < int (length xs) then Inr (xs ! nat i)
      else if i < 0 \<and> - int (length xs) \<le> i then Inr (xs ! nat (int (length xs) + i))
      else Inl IndexError)"

subsection \<open>IncidentTracker\<close>

text \<open>
  Incidents are mutable objects shared between the tracker and the lists \<open>step\<close>
  returns: an incident is named by its address in the store of objects. \<open>active\<close> is the
  dictionary from identifier to incident, in insertion order.
\<close>

type_synonym addr = nat

record IncidentTracker =
  active :: "(string \<times> addr) list"
  counter :: int

definition IncidentTracker_init :: IncidentTracker where
  "IncidentTracker_init = \<lparr>active = [], counter = 0\<rparr>"

definition new_identifier :: "IncidentTracker \<Rightarrow> string \<times> IncidentTracker" where
  "new_identifier tr =
     (let c = counter tr + 1 in (CHR ''A'' # format_04d c, tr\<lparr>counter := c\<rparr>))"

text \<open>\<open>add\<close>: \<open>key\<close> is the identifier read from the incident at address \<open>a\<close>.\<close>

definition add :: "string \<Rightarrow> addr \<Rightarrow> IncidentTracker \<Rightarrow> IncidentTracker" where
  "add key a tr = tr\<lparr>active := AList.update key a (active tr)\<rparr>"

definition iter_active :: "IncidentTracker \<Rightarrow> addr list" where
  "iter_active tr = map snd (active tr)"

text \<open>\<open>purge\<close>: the keys of the resolved incidents first, then one \<open>pop\<close> for each.\<close>

definition purge :: "(addr \<Rightarrow> Incident) \<Rightarrow> IncidentTracker \<Rightarrow> IncidentTracker" where
  "purge h tr =
     (let resolved = map fst (filter (\<lambda>(key, a). status (h a) = RESOLVED) (active tr))
      in tr\<lparr>active := fold AList.delete resolved (active tr)\<rparr>)"

subsection \<open>IncidentsFeed\<close>

record 'g IncidentsFeed = "'g BaseFeed" +
  tracker :: IncidentTracker
  grid_width :: int
  grid_height :: int

definition IncidentsFeed_init ::
  "FeedConfig \<Rightarrow> BufferConfig \<Rightarrow> 'g FeedState \<Rightarrow> MapConfig \<Rightarrow> 'g IncidentsFeed" where
  "IncidentsFeed_init cfg bufs st mc =
     \<lparr>config = cfg, buffers = bufs, state = st, running = False,
      tracker = IncidentTracker_init, grid_width = fst (grid mc), grid_height = snd (grid mc)\<rparr>"

text \<open>
  What a run of the feed works on: the feed object, the store of incident objects
  (\<open>heap\<close>, with \<open>next_addr\<close> the first address not yet given out), and the number of
  clock readings taken so far.
\<close>

record 'g world =
  feed :: "'g IncidentsFeed"
  heap :: "addr \<Rightarrow> Incident"
  next_addr :: nat
  now_calls :: nat

definition datetime_now :: "clock \<Rightarrow> 'g world \<Rightarrow> real \<times> 'g world" where
  "datetime_now clk w = (clk (now_calls w), w\<lparr>now_calls := Suc (now_calls w)\<rparr>)"

definition get_rng :: "'g world \<Rightarrow> 'g" where
  "get_rng w = rng (state (feed w))"

definition set_rng :: "'g \<Rightarrow> 'g world \<Rightarrow> 'g world" where
  "set_rng g w = w\<lparr>feed := (feed w)\<lparr>state := (state (feed w))\<lparr>rng := g\<rparr>\<rparr>\<rparr>"

definition set_tracker :: "IncidentTracker \<Rightarrow> 'g world \<Rightarrow> 'g world" where
  "set_tracker tr w = w\<lparr>feed := (feed w)\<lparr>tracker := tr\<rparr>\<rparr>"

definition store :: "addr \<Rightarrow> Incident \<Rightarrow> 'g world \<Rightarrow> 'g world" where
  "store a inc w = w\<lparr>heap := (heap w)(a := inc)\<rparr>"

text \<open>A new object: the first free address, which is then used up.\<close>

definition alloc :: "Incident \<Rightarrow> 'g world \<Rightarrow> addr \<times> 'g world" where
  "alloc inc w =
     (next_addr w, w\<lparr>heap := (heap w)(next_addr w := inc), next_addr := Suc (next_addr w)\<rparr>)"

text \<open>
  \<open>Incident.can_autoresolve\<close> on the incident at \<open>a\<close>: without a deadline no clock
  reading is taken.
\<close>

definition can_autoresolve :: "clock \<Rightarrow> addr \<Rightarrow> 'g world \<Rightarrow> bool \<times> 'g world" where
  "can_autoresolve clk a w =
     (case autoresolve_after (heap w a) of
        None \<Rightarrow> (False, w)
      | Some d \<Rightarrow>
          (let (t, w1) = datetime_now clk w
           in (d \<le> t - last_update (heap w a), w1)))"

text \<open>
  \<open>IncidentsFeed._make_incident\<close>. The draws are in the source's order; the first clock
  reading is the \<open>timestamp\<close> argument, the second the default of \<open>last_update\<close>.
\<close>

definition make_incident ::
  "'g numpy_rng \<Rightarrow> clock \<Rightarrow> 'g world \<Rightarrow> py_error + (addr \<times> 'g world)" where
  "make_incident np clk w =
     (let (ident, tr) = new_identifier (tracker (feed w));
          w0 = set_tracker tr w;
          severities = [LOW, MEDIUM, HIGH, CRITICAL]
      in case integers np 0 (int (length severities)) (get_rng w0) of
        Inl e \<Rightarrow> Inl e
      | Inr (i, g1) \<Rightarrow>
     (case py_index severities i of
        Inl e \<Rightarrow> Inl e
      | Inr sev \<Rightarrow>
     (case choice np INCIDENT_TYPES g1 of
        Inl e \<Rightarrow> Inl e
      | Inr (cat, g2) \<Rightarrow>
     (case choice np REGIONS g2 of
        Inl e \<Rightarrow> Inl e
      | Inr (reg, g3) \<Rightarrow>
     (case uniform np (of_int (fst (incident_autoresolve_sec (config (feed w0)))))
                      (of_int (snd (incident_autoresolve_sec (config (feed w0))))) g3 of
        Inl e \<Rightarrow> Inl e
      | Inr (autoresolve, g4) \<Rightarrow>
     (case integers np 0 (grid_width (feed w0)) g4 of
        Inl e \<Rightarrow> Inl e
      | Inr (x, g5) \<Rightarrow>
     (case integers np 0 (grid_height (feed w0)) g5 of
        Inl e \<Rightarrow> Inl e
      | Inr (y, g6) \<Rightarrow>
          (let w1 = set_rng g6 w0;
               (t1, w2) = datetime_now clk w1;
               (t2, w3) = datetime_now clk w2;
               incident =
                 \<lparr>identifier = ident, timestamp = t1, category = cat, severity = sev,
                  status = NEW, region = reg, acknowledged = False,
                  description = Some (title cat @ '' anomaly detected''),
                  last_update = t2, autoresolve_after = Some autoresolve,
                  location = Some (x, y)\<rparr>;
               (a, w4) = alloc incident w3;
               w5 = set_tracker (add (identifier (heap w4 a)) a (tracker (feed w4))) w4
           in Inr (a, w5)))))))))"

text \<open>\<open>for _ in range(events): emitted.append(self._make_incident())\<close>\<close>

fun make_incidents ::
  "'g numpy_rng \<Rightarrow> clock \<Rightarrow> nat \<Rightarrow> addr list \<Rightarrow> 'g world \<Rightarrow> py_error + (addr list \<times> 'g world)" where
  "make_incidents np clk 0 emitted w = Inr (emitted, w)"
| "make_incidents np clk (Suc n) emitted w =
     (case make_incident np clk w of
        Inl e \<Rightarrow> Inl e
      | Inr (a, w1) \<Rightarrow> make_incidents np clk n (emitted @ [a]) w1)"

text \<open>
  The body of the progression loop of \<open>step\<close> for the incident at \<open>a\<close>; \<open>now\<close> is the
  reading taken before the loop. \<open>advance_status\<close> takes a reading of its own, which the
  assignment of \<open>now\<close> then overwrites.
\<close>

definition progress ::
  "'g numpy_rng \<Rightarrow> clock \<Rightarrow> real \<Rightarrow> addr \<Rightarrow> addr list \<Rightarrow> 'g world \<Rightarrow>
   py_error + (addr list \<times> 'g world)" where
  "progress np clk now a emitted w =
     (if status (heap w a) = RESOLVED then Inr (emitted, w)
      else
        (let (can, w1) = can_autoresolve clk a w
         in if can
            then Inr (emitted @ [a],
                      store a ((heap w1 a)\<lparr>status := RESOLVED, last_update := now\<rparr>) w1)
            else
              (case random np (get_rng w1) of
                 Inl e \<Rightarrow> Inl e
               | Inr (progress_roll, g) \<Rightarrow>
                   (let w2 = set_rng g w1
                    in if status (heap w2 a) \<in> {NEW, ACKNOWLEDGED} \<and> progress_roll < 3 / 10
                       then (let (t, w3) = datetime_now clk w2
                             in Inr (emitted @ [a],
                                     store a ((advance_status t (heap w3 a))\<lparr>last_update := now\<rparr>) w3))
                       else if status (heap w2 a) = IN_PROGRESS \<and> progress_roll < 15 / 100
                       then (let (t, w3) = datetime_now clk w2
                             in Inr (emitted @ [a],
                                     store a ((advance_status t (heap w3 a))\<lparr>last_update := now\<rparr>) w3))
                       else Inr (emitted, w2)))))"

text \<open>\<open>for incident in list(self.tracker.iter_active()): ...\<close>\<close>

fun sweep ::
  "'g numpy_rng \<Rightarrow> clock \<Rightarrow> real \<Rightarrow> addr list \<Rightarrow> addr list \<Rightarrow> 'g world \<Rightarrow>
   py_error + (addr list \<times> 'g world)" where
  "sweep np clk now [] emitted w = Inr (emitted, w)"
| "sweep np clk now (a # as) emitted w =
     (case progress np clk now a emitted w of
        Inl e \<Rightarrow> Inl e
      | Inr (emitted1, w1) \<Rightarrow> sweep np clk now as emitted1 w1)"

text \<open>
  \<open>range(events)\<close> is empty for a count below one. The first phase of \<open>step\<close>: the
  Poisson draw and the arrivals.
\<close>

definition arrivals ::
  "'g numpy_rng \<Rightarrow> clock \<Rightarrow> 'g world \<Rightarrow> py_error + (addr list \<times> 'g world)" where
  "arrivals np clk w =
     (let mean_rate = incidents_per_min (config (feed w)) / 60
      in case poisson np mean_rate (get_rng w) of
        Inl e \<Rightarrow> Inl e
      | Inr (events, g) \<Rightarrow> make_incidents np clk (nat events) [] (set_rng g w))"

text \<open>
  \<open>IncidentsFeed.step\<close>. The list it returns holds the incident objects themselves:
  addresses into the store of the world it returns.
\<close>

definition step ::
  "'g numpy_rng \<Rightarrow> clock \<Rightarrow> 'g world \<Rightarrow> py_error + (addr list \<times> 'g world)" where
  "step np clk w =
     (case arrivals np clk w of
        Inl e \<Rightarrow> Inl e
      | Inr (emitted, w1) \<Rightarrow>
          (let (now, w2) = datetime_now clk w1
           in case sweep np clk now (iter_active (tracker (feed w2))) emitted w2 of
                Inl e \<Rightarrow> Inl e
              | Inr (emitted1, w3) \<Rightarrow>
                  Inr (emitted1, set_tracker (purge (heap w3) (tracker (feed w3))) w3)))"

text \<open>
  The loop of \<open>_run\<close> for \<open>n\<close> ticks (the sleep and the bus apart): after each
  \<open>step\<close> every incident of the returned list is published, and a subscriber reads
  it then.
\<close>

fun run_ticks ::
  "'g numpy_rng \<Rightarrow> clock \<Rightarrow> nat \<Rightarrow> 'g world \<Rightarrow> py_error + (Incident list list \<times> 'g world)" where
  "run_ticks np clk 0 w = Inr ([], w)"
| "run_ticks np clk (Suc n) w =
     (case step np clk w of
        Inl e \<Rightarrow> Inl e
      | Inr (emitted, w1) \<Rightarrow>
          (case run_ticks np clk n w1 of
             Inl e \<Rightarrow> Inl e
           | Inr (published, w2) \<Rightarrow> Inr (map (heap w1) emitted # published, w2)))"

text \<open>
  \<open>IncidentsFeed.reset\<close>: the feed is stopped and gets a new, empty tracker. The
  incident objects created so far stay where they are.
\<close>

definition IncidentsFeed_reset :: "'g world \<Rightarrow> 'g world" where
  "IncidentsFeed_reset w = w\<lparr>feed := (feed w)\<lparr>running := False, tracker := IncidentTracker_init\<rparr>\<rparr>"

text \<open>The content of an address before an incident is created there.\<close>

definition no_incident :: Incident where
  "no_incident =
     \<lparr>identifier = [], timestamp = 0, category = [], severity = LOW, status = RESOLVED,
      region = [], acknowledged = False, description = None, last_update = 0,
      autoresolve_after = None, location = None\<rparr>"

text \<open>
  A fresh \<open>FeedState(seed)\<close> with an \<open>IncidentsFeed\<close> constructed over it, before any
  incident exists.
\<close>

definition world_init ::
  "'g numpy_rng \<Rightarrow> int \<Rightarrow> FeedConfig \<Rightarrow> BufferConfig \<Rightarrow> MapConfig \<Rightarrow> py_error + 'g world" where
  "world_init np s cfg bufs mc =
     (case FeedState_init np s of
        Inl e \<Rightarrow> Inl e
      | Inr st \<Rightarrow>
          Inr \<lparr>feed = IncidentsFeed_init cfg bufs st mc, heap = (\<lambda>a. no_incident),
               next_addr = 0, now_calls = 0\<rparr>)"

section \<open>Notions used by the properties\<close>

text \<open>The lifecycle order of the statuses, and the status one step further.\<close>

fun rank :: "IncidentStatus \<Rightarrow> nat" where
  "rank NEW = 0"
| "rank ACKNOWLEDGED = 1"
| "rank IN_PROGRESS = 2"
| "rank RESOLVED = 3"

fun next_status :: "IncidentStatus \<Rightarrow> IncidentStatus" where
  "next_status NEW = ACKNOWLEDGED"
| "next_status ACKNOWLEDGED = IN_PROGRESS"
| "next_status IN_PROGRESS = RESOLVED"
| "next_status RESOLVED = RESOLVED"

text \<open>Two states of one incident agree on every field but status, flag and last update.\<close>

definition same_identity :: "Incident \<Rightarrow> Incident \<Rightarrow> bool" where
  "same_identity i j =
     (identifier j = identifier i \<and> timestamp j = timestamp i \<and> category j = category i
      \<and> severity j = severity i \<and> region j = region i \<and> description j = description i
      \<and> autoresolve_after j = autoresolve_after i \<and> location j = location i)"

text \<open>The identifiers a tracker has given out when its counter stands at \<open>c\<close>.\<close>

definition issued :: "int \<Rightarrow> string list" where
  "issued c = map (\<lambda>n. CHR ''A'' # format_04d (int n)) [1..<Suc (nat c)]"

text \<open>
  The worlds that construction and \<open>step\<close> produce: every tracked incident is an object
  that exists, under an identifier its tracker gave out, and no object is tracked twice.
\<close>

definition wf_world :: "'g world \<Rightarrow> bool" where
  "wf_world w =
     (0 \<le> counter (tracker (feed w))
      \<and> list_all (\<lambda>(key, a). a < next_addr w \<and> key \<in> set (issued (counter (tracker (feed w)))))
           (active (tracker (feed w)))
      \<and> distinct (map snd (active (tracker (feed w)))))"

text \<open>Reading a string of decimal digits.\<close>

definition decimal :: "string \<Rightarrow> nat" where
  "decimal s = foldl (\<lambda>acc c. 10 * acc + ((of_char c :: nat) - 48)) 0 s"

text \<open>A location inside a grid of the given width and height.\<close>

definition in_grid :: "int \<Rightarrow> int \<Rightarrow> (int \<times> int) option \<Rightarrow> bool" where
  "in_grid width height loc =
     (case loc of None \<Rightarrow> False | Some (x, y) \<Rightarrow> 0 \<le> x \<and> x < width \<and> 0 \<le> y \<and> y < height)"

text \<open>
  What numpy documents of \<open>Generator.integers(low, high)\<close>: a value from \<open>low\<close>
  (inclusive) to \<open>high\<close> (exclusive); and of \<open>Generator.uniform(low, high)\<close> with
  \<open>low \<le> high\<close>: a value not below \<open>low\<close>.
\<close>

definition integers_in_range :: "'g numpy_rng \<Rightarrow> bool" where
  "integers_in_range np =
     (\<forall>lo hi g v g'. integers np lo hi g = Inr (v, g') \<longrightarrow> lo \<le> v \<and> v < hi)"


text \<open>
  Two states of one incident that differ at most in the two points in time they record.
\<close>

definition similar :: "Incident \<Rightarrow> Incident \<Rightarrow> bool" where
  "similar i j =
     (identifier j = identifier i \<and> category j = category i \<and> severity j = severity i
      \<and> status j = status i \<and> region j = region i \<and> acknowledged j = acknowledged i
      \<and> description j = description i \<and> autoresolve_after j = autoresolve_after i
      \<and> location j = location i)"




section \<open>Concrete inputs\<close>

text \<open>
  A small deterministic generator with the interface of numpy's, for running the model:
  its state counts the draws, and each draw is computed from the count.
\<close>

definition counting_rng :: "nat numpy_rng" where
  "counting_rng =
     \<lparr>default_rng = (\<lambda>s. if s < 0 then Inl ValueError else Inr (nat s)),
      integers = (\<lambda>lo hi g. if lo < hi then Inr (lo + int g mod (hi - lo), Suc g) else Inl ValueError),
      choice = (\<lambda>xs g. if xs = [] then Inl ValueError else Inr (xs ! (g mod length xs), Suc g)),
      uniform = (\<lambda>lo hi g. Inr (lo + (hi - lo) * (real (g mod 4) / 4), Suc g)),
      poisson = (\<lambda>lam g. if lam < 0 then Inl ValueError else Inr (int (g mod 3), Suc g)),
      random = (\<lambda>g. Inr (real (g mod 10) / 10, Suc g)),
      normal2 = (\<lambda>mu sigma g. Inr ((mu + sigma * (real (g mod 5) - 2), mu - sigma * (real (g mod 3) - 1)), Suc g)),
      exponential = (\<lambda>scale g. Inr (scale * real (g mod 4), Suc g))\<rparr>"

text \<open>The default configuration of config.py.\<close>

definition default_feeds :: FeedConfig where
  "default_feeds =
     \<lparr>metrics_hz = 10, logs_per_sec = 6, incidents_per_min = 8, incident_autoresolve_sec = (30, 120)\<rparr>"

definition default_buffers :: BufferConfig where
  "default_buffers = \<lparr>metrics_seconds = 120, max_logs = 1000, max_incidents = 200\<rparr>"

definition default_map :: MapConfig where
  "default_map = \<lparr>grid = (20, 12), hotspot_prob = 15 / 100, max_markers = 40\<rparr>"

text \<open>Two clocks: one second, and a thousand seconds, between consecutive readings.\<close>

definition clock_1s :: clock where
  "clock_1s k = real k"

definition clock_1000s :: clock where
  "clock_1000s k = 1000 * real k"



text \<open>The world right after construction over the counting generator in state \<open>g\<close>.\<close>

definition start_world :: "nat \<Rightarrow> nat world" where
  "start_world g =
     \<lparr>feed = IncidentsFeed_init default_feeds default_buffers \<lparr>seed = int g, rng = g\<rparr> default_map,
      heap = (\<lambda>a. no_incident), next_addr = 0, now_calls = 0\<rparr>"

text \<open>
  A world as tests/test_feeds.py sets one up for the auto-resolve test: a tracked
  incident whose last update lies far in the past, beside a recent one.
\<close>

definition aged_world :: "nat world" where
  "aged_world =
     \<lparr>feed =
        (IncidentsFeed_init default_feeds default_buffers \<lparr>seed = 12, rng = 12\<rparr> default_map)
          \<lparr>tracker := \<lparr>active = [(''A0001'', 0), (''A0002'', 1)], counter = 2\<rparr>\<rparr>,
      heap = (\<lambda>a. no_incident)
        (0 := \<lparr>identifier = ''A0001'', timestamp = - 100, category = ''network'',
               severity = HIGH, status = NEW, region = ''us-east'', acknowledged = False,
               description = Some ''Network anomaly detected'', last_update = - 100,
               autoresolve_after = Some 30, location = Some (3, 4)\<rparr>,
         1 := \<lparr>identifier = ''A0002'', timestamp = - 1, category = ''storage'',
               severity = LOW, status = ACKNOWLEDGED, region = ''eu-central'',
               acknowledged = True, description = Some ''Storage anomaly detected'',
               last_update = 0, autoresolve_after = Some 120, location = Some (7, 2)\<rparr>),
      next_addr = 2, now_calls = 0\<rparr>"

definition metrics_start :: "nat MetricsFeed" where
  "metrics_start = MetricsFeed_init default_feeds default_buffers \<lparr>seed = 3, rng = 3\<rparr>"

section \<open>Auxiliary facts\<close>

lemma set_rng_simps:
  "heap (set_rng g w) = heap w" "next_addr (set_rng g w) = next_addr w"
  "now_calls (set_rng g w) = now_calls w" "tracker (feed (set_rng g w)) = tracker (feed w)"
  "config (feed (set_rng g w)) = config (feed w)" "grid_width (feed (set_rng g w)) = grid_width (feed w)"
  "grid_height (feed (set_rng g w)) = grid_height (feed w)" "get_rng (set_rng g w) = g"
  by (simp_all add: set_rng_def get_rng_def)

lemma set_tracker_simps:
  "heap (set_tracker tr w) = heap w" "next_addr (set_tracker tr w) = next_addr w"
  "now_calls (set_tracker tr w) = now_calls w" "tracker (feed (set_tracker tr w)) = tr"
  "config (feed (set_tracker tr w)) = config (feed w)" "grid_width (feed (set_tracker tr w)) = grid_width (feed w)"
  "grid_height (feed (set_tracker tr w)) = grid_height (feed w)" "get_rng (set_tracker tr w) = get_rng w"
  by (simp_all add: set_tracker_def get_rng_def)

lemma store_simps:
  "heap (store a i w) = (heap w)(a := i)" "next_addr (store a i w) = next_addr w"
  "now_calls (store a i w) = now_calls w" "feed (store a i w) = feed w"
  "get_rng (store a i w) = get_rng w"
  by (simp_all add: store_def get_rng_def)

lemma datetime_now_simps:
  "fst (datetime_now clk w) = clk (now_calls w)"
  "heap (snd (datetime_now clk w)) = heap w" "next_addr (snd (datetime_now clk w)) = next_addr w"
  "now_calls (snd (datetime_now clk w)) = Suc (now_calls w)" "feed (snd (datetime_now clk w)) = feed w"
  "get_rng (snd (datetime_now clk w)) = get_rng w"
  by (simp_all add: datetime_now_def get_rng_def)

lemma fold_delete_filter:
  "fold AList.delete ks xs = filter (\<lambda>(key, a). key \<notin> set ks) xs"
proof (induction ks arbitrary: xs)
  case Nil then show ?case by simp
next
  case (Cons k ks)
  have "filter (\<lambda>(key, a). key \<notin> set ks) (AList.delete k xs) = filter (\<lambda>(key, a). key \<notin> set (k # ks)) xs"
    by (induction xs) (auto simp: AList.delete_eq)
  with Cons show ?case by simp
qed

lemma purge_active:
  "active (purge h tr) = filter (\<lambda>(key, a). key \<notin> fst ` {(k, b) \<in> set (active tr). status (h b) = RESOLVED}) (active tr)"
  unfolding purge_def Let_def
  by (simp add: fold_delete_filter) (rule filter_cong, auto)

lemma purge_no_resolved:
  "(key, a) \<in> set (active (purge h tr)) \<Longrightarrow> status (h a) \<noteq> RESOLVED"
  by (force simp: purge_active)

lemma purge_keeps:
  "(key, a) \<in> set (active tr) \<Longrightarrow> distinct (map fst (active tr)) \<Longrightarrow> status (h a) \<noteq> RESOLVED \<Longrightarrow> (key, a) \<in> set (active (purge h tr))"
  apply (auto simp: purge_active)
  by (metis eq_key_imp_eq_value)


lemma purge_counter: "counter (purge h tr) = counter tr"
  by (simp add: purge_def Let_def)

lemmas world_simps = set_rng_simps set_tracker_simps store_simps datetime_now_simps

lemma datetime_now_eq: "datetime_now clk w = (t, w1) \<Longrightarrow> t = clk (now_calls w) \<and> w1 = snd (datetime_now clk w)"
  by (auto simp: datetime_now_def)

lemma can_autoresolve_eq:
  "can_autoresolve clk a w =
     (case autoresolve_after (heap w a) of None \<Rightarrow> (False, w)
      | Some d \<Rightarrow> (d \<le> clk (now_calls w) - last_update (heap w a), snd (datetime_now clk w)))"
  by (simp add: can_autoresolve_def datetime_now_def split: option.splits)

lemma advance_status_fields:
  "status (advance_status t i) = next_status (status i)"
  "acknowledged (advance_status t i) = (acknowledged i \<or> status i = NEW)"
  "same_identity i (advance_status t i)"
  "last_update (advance_status t i) = t"
  by (cases "status i"; simp add: advance_status_def same_identity_def)+

lemma rank_next: "rank s \<le> rank (next_status s)"
  by (cases s) simp_all

lemma rank_le_3 [simp]: "rank s \<le> 3"
  by (cases s) simp_all

lemma same_identity_refl [simp]: "same_identity i i"
  by (simp add: same_identity_def)

lemma same_identity_trans: "same_identity i j \<Longrightarrow> same_identity j k \<Longrightarrow> same_identity i k"
  by (simp add: same_identity_def)

lemma same_identity_upd [simp]:
  "same_identity i (j\<lparr>last_update := t\<rparr>) = same_identity i j"
  "same_identity i (j\<lparr>status := s\<rparr>) = same_identity i j"
  by (simp_all add: same_identity_def)

lemma progress_frame:
  assumes "progress np clk now a em w = Inr (em', w')"
  shows "tracker (feed w') = tracker (feed w)" "config (feed w') = config (feed w)"
    "grid_width (feed w') = grid_width (feed w)" "grid_height (feed w') = grid_height (feed w)"
    "next_addr w' = next_addr w" "now_calls w \<le> now_calls w'"
    "b \<noteq> a \<Longrightarrow> heap w' b = heap w b"
    "same_identity (heap w a) (heap w' a)"
    "rank (status (heap w a)) \<le> rank (status (heap w' a))"
    "em' = em \<or> em' = em @ [a]"
  using assms
  by (auto simp: progress_def Let_def split_beta can_autoresolve_eq world_simps advance_status_fields rank_next
      split: if_splits option.splits sum.splits prod.splits dest!: datetime_now_eq)

lemma progress_transition:
  assumes "progress np clk now a em w = Inr (em', w')"
  shows "(heap w' a = heap w a \<and> em' = em) \<or>
   (em' = em @ [a] \<and> status (heap w a) \<noteq> RESOLVED \<and> last_update (heap w' a) = now \<and>
     ((status (heap w' a) = RESOLVED \<and> acknowledged (heap w' a) = acknowledged (heap w a)
         \<and> get_rng w' = get_rng w
         \<and> (\<exists>d. autoresolve_after (heap w a) = Some d \<and> d \<le> clk (now_calls w) - last_update (heap w a)))
      \<or> (status (heap w' a) = next_status (status (heap w a))
         \<and> acknowledged (heap w' a) = (acknowledged (heap w a) \<or> status (heap w a) = NEW))))"
  using assms
  by (auto simp: progress_def Let_def split_beta can_autoresolve_eq world_simps advance_status_fields
      split: if_splits option.splits sum.splits prod.splits dest!: datetime_now_eq)

lemma progress_autoresolve:
  assumes "status (heap w a) \<noteq> RESOLVED" "autoresolve_after (heap w a) = Some d"
    "d \<le> clk (now_calls w) - last_update (heap w a)"
  shows "\<exists>w'. progress np clk now a em w = Inr (em @ [a], w') \<and> status (heap w' a) = RESOLVED
     \<and> acknowledged (heap w' a) = acknowledged (heap w a) \<and> last_update (heap w' a) = now
     \<and> get_rng w' = get_rng w"
  using assms
  by (simp add: progress_def Let_def split_beta can_autoresolve_eq world_simps)

lemma progress_resolved:
  "status (heap w a) = RESOLVED \<Longrightarrow> progress np clk now a em w = Inr (em, w)"
  by (simp add: progress_def)

lemma rank_next_strict: "s \<noteq> RESOLVED \<Longrightarrow> rank s < rank (next_status s)"
  by (cases s) simp_all

lemma rank_resolved_strict: "s \<noteq> RESOLVED \<Longrightarrow> rank s < 3"
  by (cases s) simp_all

lemma progress_emitted_rank:
  assumes "progress np clk now a em w = Inr (em', w')" "em' \<noteq> em"
  shows "em' = em @ [a] \<and> rank (status (heap w a)) < rank (status (heap w' a))"
  using progress_transition[OF assms(1)] assms(2)
  by (auto simp: rank_next_strict rank_resolved_strict)

lemma progress_silent:
  assumes "progress np clk now a em w = Inr (em', w')" "em' = em"
  shows "heap w' = heap w"
proof
  fix b
  show "heap w' b = heap w b"
  proof (cases "b = a")
    case True
    with progress_transition[OF assms(1)] assms(2) show ?thesis by auto
  next
    case False
    with progress_frame(7)[OF assms(1)] show ?thesis by simp
  qed
qed

lemma sweep_frame:
  assumes "sweep np clk now as em w = Inr (em', w')"
  shows "tracker (feed w') = tracker (feed w) \<and> config (feed w') = config (feed w)
    \<and> grid_width (feed w') = grid_width (feed w) \<and> grid_height (feed w') = grid_height (feed w)
    \<and> next_addr w' = next_addr w \<and> now_calls w \<le> now_calls w'
    \<and> (\<forall>b. b \<notin> set as \<longrightarrow> heap w' b = heap w b)
    \<and> (\<forall>b. same_identity (heap w b) (heap w' b))
    \<and> (\<forall>b. rank (status (heap w b)) \<le> rank (status (heap w' b)))
    \<and> (\<exists>ems. em' = em @ ems \<and> set ems \<subseteq> set as
          \<and> (\<forall>b. b \<notin> set ems \<longrightarrow> heap w' b = heap w b)
          \<and> (\<forall>b \<in> set ems. rank (status (heap w b)) < rank (status (heap w' b))))"
  using assms
proof (induction as arbitrary: em w)
  case Nil
  then show ?case by simp
next
  case (Cons a as)
  from Cons.prems obtain em1 w1 where
    p: "progress np clk now a em w = Inr (em1, w1)" and
    s: "sweep np clk now as em1 w1 = Inr (em', w')"
    by (auto split: sum.splits)
  note f = progress_frame[OF p]
  from Cons.IH[OF s] obtain ems where
    i: "tracker (feed w') = tracker (feed w1)" "config (feed w') = config (feed w1)"
       "grid_width (feed w') = grid_width (feed w1)" "grid_height (feed w') = grid_height (feed w1)"
       "next_addr w' = next_addr w1" "now_calls w1 \<le> now_calls w'"
       "\<forall>b. b \<notin> set as \<longrightarrow> heap w' b = heap w1 b"
       "\<forall>b. same_identity (heap w1 b) (heap w' b)"
       "\<forall>b. rank (status (heap w1 b)) \<le> rank (status (heap w' b))"
       "em' = em1 @ ems" "set ems \<subseteq> set as"
       "\<forall>b. b \<notin> set ems \<longrightarrow> heap w' b = heap w1 b"
       "\<forall>b \<in> set ems. rank (status (heap w1 b)) < rank (status (heap w' b))"
    by auto
  have h1: "\<And>b. b \<noteq> a \<Longrightarrow> heap w1 b = heap w b" using f(7) by simp
  have si: "\<And>b. same_identity (heap w b) (heap w1 b)"
  proof -
    fix b show "same_identity (heap w b) (heap w1 b)"
      using f(8) h1[of b] by (cases "b = a") auto
  qed
  have rk: "\<And>b. rank (status (heap w b)) \<le> rank (status (heap w1 b))"
  proof -
    fix b show "rank (status (heap w b)) \<le> rank (status (heap w1 b))"
      using f(9) h1[of b] by (cases "b = a") auto
  qed
  have A: "tracker (feed w') = tracker (feed w)" "config (feed w') = config (feed w)"
    "grid_width (feed w') = grid_width (feed w)" "grid_height (feed w') = grid_height (feed w)"
    "next_addr w' = next_addr w" "now_calls w \<le> now_calls w'"
    using f i by simp_all
  have B: "\<forall>b. b \<notin> set (a # as) \<longrightarrow> heap w' b = heap w b"
    using i(7) h1 by simp
  have C: "\<forall>b. same_identity (heap w b) (heap w' b)"
    using si i(8) same_identity_trans by blast
  have D: "\<forall>b. rank (status (heap w b)) \<le> rank (status (heap w' b))"
    using rk i(9) le_trans by blast
  have E: "\<exists>ems'. em' = em @ ems' \<and> set ems' \<subseteq> set (a # as)
          \<and> (\<forall>b. b \<notin> set ems' \<longrightarrow> heap w' b = heap w b)
          \<and> (\<forall>b \<in> set ems'. rank (status (heap w b)) < rank (status (heap w' b)))"
  proof (cases "em1 = em")
    case True
    from progress_silent[OF p True] have hw: "heap w1 = heap w" .
    show ?thesis
      by (rule exI[of _ ems]) (use i True hw in auto)
  next
    case False
    from progress_emitted_rank[OF p False] have
      e1: "em1 = em @ [a]" and r1: "rank (status (heap w a)) < rank (status (heap w1 a))" by auto
    show ?thesis
    proof (rule exI[of _ "a # ems"], intro conjI)
      show "em' = em @ a # ems" using i(10) e1 by simp
      show "set (a # ems) \<subseteq> set (a # as)" using i(11) by auto
      show "\<forall>b. b \<notin> set (a # ems) \<longrightarrow> heap w' b = heap w b"
        using i(12) h1 by simp
      show "\<forall>b \<in> set (a # ems). rank (status (heap w b)) < rank (status (heap w' b))"
      proof
        fix b assume b: "b \<in> set (a # ems)"
        show "rank (status (heap w b)) < rank (status (heap w' b))"
        proof (cases "b = a")
          case True
          with r1 i(9) show ?thesis by (metis less_le_trans)
        next
          case False
          with b have "b \<in> set ems" by simp
          with i(13) have "rank (status (heap w1 b)) < rank (status (heap w' b))" by blast
          with h1[OF False] show ?thesis by simp
        qed
      qed
    qed
  qed
  from A B C D E show ?case by blast
qed

lemma sweep_resolved_unchanged:
  assumes "sweep np clk now as em w = Inr (em', w')" "status (heap w b) = RESOLVED"
  shows "heap w' b = heap w b"
proof -
  from sweep_frame[OF assms(1)] obtain ems where
    u: "\<forall>b. b \<notin> set ems \<longrightarrow> heap w' b = heap w b" and
    r: "\<forall>b \<in> set ems. rank (status (heap w b)) < rank (status (heap w' b))"
    by blast
  have "b \<notin> set ems"
  proof
    assume "b \<in> set ems"
    with r have "rank (status (heap w b)) < rank (status (heap w' b))" by blast
    with assms(2) have "3 < rank (status (heap w' b))" by simp
    moreover have "rank (status (heap w' b)) \<le> 3" by simp
    ultimately show False by linarith
  qed
  with u show ?thesis by blast
qed

lemma sweep_emitted_prefix:
  assumes "sweep np clk now as em w = Inr (em', w')"
  shows "take (length em) em' = em"
  using sweep_frame[OF assms] by auto

lemma sweep_autoresolve:
  assumes "sweep np clk now as em w = Inr (em', w')" "a \<in> set as"
    "status (heap w a) \<noteq> RESOLVED" "autoresolve_after (heap w a) = Some d"
    "\<forall>k \<ge> now_calls w. d \<le> clk k - last_update (heap w a)"
  shows "a \<in> set (drop (length em) em') \<and> status (heap w' a) = RESOLVED
     \<and> acknowledged (heap w' a) = acknowledged (heap w a) \<and> last_update (heap w' a) = now"
  using assms
proof (induction as arbitrary: em w)
  case Nil
  then show ?case by simp
next
  case (Cons b as)
  from Cons.prems(1) obtain em1 w1 where
    p: "progress np clk now b em w = Inr (em1, w1)" and
    s: "sweep np clk now as em1 w1 = Inr (em', w')"
    by (auto split: sum.splits)
  show ?case
  proof (cases "b = a")
    case True
    from Cons.prems(5) have q: "d \<le> clk (now_calls w) - last_update (heap w a)" by simp
    from progress_autoresolve[where np=np and clk=clk and now=now and em=em and w=w and a=a and d=d,
        OF Cons.prems(3,4) q] p True
    have e: "em1 = em @ [a]" and r: "status (heap w1 a) = RESOLVED"
      and k: "acknowledged (heap w1 a) = acknowledged (heap w a)"
      and l: "last_update (heap w1 a) = now"
      by auto
    from sweep_resolved_unchanged[OF s r] have u: "heap w' a = heap w1 a" .
    from sweep_frame[OF s] obtain ems where "em' = em1 @ ems" by blast
    with e have "drop (length em) em' = a # ems" by simp
    with u r k l show ?thesis by simp
  next
    case False
    with Cons.prems(2) have m: "a \<in> set as" by simp
    from progress_frame(7)[OF p, of a] False have h: "heap w1 a = heap w a" by simp
    from progress_frame(6)[OF p] Cons.prems(5) h
    have c: "\<forall>k \<ge> now_calls w1. d \<le> clk k - last_update (heap w1 a)" by simp
    from Cons.IH[OF s m _ _ c] h Cons.prems(3,4)
    have i: "a \<in> set (drop (length em1) em')" "status (heap w' a) = RESOLVED"
      "acknowledged (heap w' a) = acknowledged (heap w a)" "last_update (heap w' a) = now"
      by simp_all
    from sweep_frame[OF s] obtain ems where e: "em' = em1 @ ems" by blast
    from progress_frame(10)[OF p] have "em1 = em \<or> em1 = em @ [b]" .
    with e have "set (drop (length em1) em') \<subseteq> set (drop (length em) em')"
      by auto
    with i show ?thesis by blast
  qed
qed

lemma sweep_once:
  assumes "sweep np clk now as em w = Inr (em', w')" "distinct as"
  shows "heap w' a = heap w a \<or>
    (status (heap w a) \<noteq> RESOLVED \<and> last_update (heap w' a) = now \<and>
     ((status (heap w' a) = RESOLVED \<and> acknowledged (heap w' a) = acknowledged (heap w a)
        \<and> (\<exists>d k. now_calls w \<le> k \<and> autoresolve_after (heap w a) = Some d
                 \<and> d \<le> clk k - last_update (heap w a)))
      \<or> (status (heap w' a) = next_status (status (heap w a))
        \<and> acknowledged (heap w' a) = (acknowledged (heap w a) \<or> status (heap w a) = NEW))))"
  using assms
proof (induction as arbitrary: em w)
  case Nil
  then show ?case by simp
next
  case (Cons b as)
  from Cons.prems(1) obtain em1 w1 where
    p: "progress np clk now b em w = Inr (em1, w1)" and
    s: "sweep np clk now as em1 w1 = Inr (em', w')"
    by (auto split: sum.splits)
  from Cons.prems(2) have d: "distinct as" and nb: "b \<notin> set as" by simp_all
  show ?case
  proof (cases "b = a")
    case True
    with nb sweep_frame[OF s] have "heap w' a = heap w1 a" by blast
    with progress_transition[OF p] True show ?thesis by auto
  next
    case False
    from progress_frame(7)[OF p, of a] False have h: "heap w1 a = heap w a" by simp
    from Cons.IH[OF s d] h progress_frame(6)[OF p] show ?thesis
      by (auto intro: le_trans)
  qed
qed

lemma decimal_snoc: "decimal (s @ [c]) = 10 * decimal s + ((of_char c :: nat) - 48)"
  by (simp add: decimal_def)

lemma of_char_digit: "d < 10 \<Longrightarrow> (of_char (digit_char d) :: nat) = 48 + d"
  by (simp add: digit_char_def)

lemma decimal_str_nat: "decimal (str_nat n) = n"
proof (induction n rule: str_nat.induct)
  case (1 n)
  show ?case
  proof (cases "n < 10")
    case True
    then show ?thesis
      by (subst str_nat.simps) (simp add: decimal_def of_char_digit)
  next
    case False
    with 1 have "decimal (str_nat (n div 10)) = n div 10" by simp
    with False show ?thesis
      by (subst str_nat.simps) (simp add: decimal_snoc of_char_digit)
  qed
qed

lemma decimal_zeros: "decimal (replicate k (CHR ''0'') @ s) = decimal s"
proof -
  have "foldl (\<lambda>acc c. 10 * acc + ((of_char c :: nat) - 48)) 0 (replicate k (CHR ''0'')) = 0"
    by (induction k) simp_all
  then show ?thesis by (simp add: decimal_def)
qed

lemma decimal_format_04d: "0 \<le> i \<Longrightarrow> decimal (format_04d i) = nat i"
  by (simp add: format_04d_def zfill_def decimal_zeros decimal_str_nat)

lemma issued_fresh:
  assumes "0 \<le> c" "key \<in> set (issued c)"
  shows "key \<noteq> CHR ''A'' # format_04d (c + 1)"
proof
  assume e: "key = CHR ''A'' # format_04d (c + 1)"
  from assms(2) have "key \<in> (\<lambda>n. CHR ''A'' # format_04d (int n)) ` set [1..<Suc (nat c)]"
    unfolding issued_def set_map .
  then obtain n where m: "n \<in> set [1..<Suc (nat c)]" and k: "key = CHR ''A'' # format_04d (int n)"
    by (rule imageE)
  from m have "n < Suc (nat c)" by (simp only: set_upt atLeastLessThan_iff)
  then have n: "n \<le> nat c" by (rule less_Suc_eq_le[THEN iffD1])
  from trans[OF k[symmetric] e] have "format_04d (int n) = format_04d (c + 1)"
    by (simp only: list.inject simp_thms)
  then have "decimal (format_04d (int n)) = decimal (format_04d (c + 1))"
    by (rule arg_cong)
  moreover have "decimal (format_04d (int n)) = n" by (simp add: decimal_format_04d)
  moreover have "decimal (format_04d (c + 1)) = nat (c + 1)"
    using assms(1) by (simp add: decimal_format_04d)
  ultimately have "n = nat (c + 1)" by (simp only:)
  with n assms(1) show False by linarith
qed

lemma issued_mono: "0 \<le> c \<Longrightarrow> set (issued c) \<subseteq> set (issued (c + 1))"
proof -
  assume c: "0 \<le> c"
  have "nat c \<le> nat (c + 1)" by simp
  then have "set [1..<Suc (nat c)] \<subseteq> set [1..<Suc (nat (c + 1))]"
    by (simp only: set_upt) (rule ivl_subset[THEN iffD2], simp)
  then show ?thesis unfolding issued_def set_map by (rule image_mono)
qed

lemma issued_new: "0 \<le> c \<Longrightarrow> CHR ''A'' # format_04d (c + 1) \<in> set (issued (c + 1))"
proof -
  assume c: "0 \<le> c"
  have "1 \<le> nat (c + 1)" using c by linarith
  then have m: "nat (c + 1) \<in> set [1..<Suc (nat (c + 1))]"
    by (simp only: set_upt atLeastLessThan_iff lessI simp_thms)
  have e: "int (nat (c + 1)) = c + 1" using c by simp
  have "(\<lambda>n. CHR ''A'' # format_04d (int n)) (nat (c + 1))
          \<in> (\<lambda>n. CHR ''A'' # format_04d (int n)) ` set [1..<Suc (nat (c + 1))]"
    using m by (rule imageI)
  then show ?thesis unfolding issued_def set_map e .
qed

lemma alloc_simps:
  "fst (alloc i w) = next_addr w"
  "heap (snd (alloc i w)) = (heap w)(next_addr w := i)"
  "next_addr (snd (alloc i w)) = Suc (next_addr w)"
  "now_calls (snd (alloc i w)) = now_calls w" "feed (snd (alloc i w)) = feed w"
  by (simp_all add: alloc_def)

lemma make_incident_spec:
  assumes "make_incident np clk w = Inr (a, w')"
  shows "a = next_addr w" "next_addr w' = Suc (next_addr w)" "now_calls w' = now_calls w + 2"
    "b \<noteq> a \<Longrightarrow> heap w' b = heap w b"
    "status (heap w' a) = NEW" "acknowledged (heap w' a) = False"
    "identifier (heap w' a) = CHR ''A'' # format_04d (counter (tracker (feed w)) + 1)"
    "counter (tracker (feed w')) = counter (tracker (feed w)) + 1"
    "active (tracker (feed w')) =
       AList.update (CHR ''A'' # format_04d (counter (tracker (feed w)) + 1)) a (active (tracker (feed w)))"
    "config (feed w') = config (feed w)" "grid_width (feed w') = grid_width (feed w)"
    "grid_height (feed w') = grid_height (feed w)"
    "last_update (heap w' a) = clk (Suc (now_calls w))" "timestamp (heap w' a) = clk (now_calls w)"
    "\<exists>v g g'. autoresolve_after (heap w' a) = Some v
        \<and> uniform np (of_int (fst (incident_autoresolve_sec (config (feed w)))))
                      (of_int (snd (incident_autoresolve_sec (config (feed w))))) g = Inr (v, g')"
    "\<exists>x y gx gx' gy gy'. location (heap w' a) = Some (x, y)
        \<and> integers np 0 (grid_width (feed w)) gx = Inr (x, gx')
        \<and> integers np 0 (grid_height (feed w)) gy = Inr (y, gy')"
  using assms
  unfolding make_incident_def new_identifier_def add_def
  by (auto simp: Let_def split_beta world_simps alloc_simps split: sum.splits) blast+

lemma update_fresh: "k \<notin> fst ` set al \<Longrightarrow> AList.update k v al = al @ [(k, v)]"
  by (induction al) auto

lemma make_incident_wf:
  assumes wf: "wf_world w" and m: "make_incident np clk w = Inr (a, w')"
  shows "wf_world w'"
    "active (tracker (feed w')) =
       active (tracker (feed w)) @ [(CHR ''A'' # format_04d (counter (tracker (feed w)) + 1), a)]"
proof -
  let ?c = "counter (tracker (feed w))"
  let ?k = "CHR ''A'' # format_04d (?c + 1)"
  let ?al = "active (tracker (feed w))"
  note s = make_incident_spec[OF m]
  from wf have c: "0 \<le> ?c"
    and la: "\<forall>(key, b) \<in> set ?al. b < next_addr w \<and> key \<in> set (issued ?c)"
    and d: "distinct (map snd ?al)"
    by (simp_all add: wf_world_def list_all_iff)
  have "?k \<notin> fst ` set ?al"
  proof
    assume "?k \<in> fst ` set ?al"
    then obtain b where "(?k, b) \<in> set ?al" by auto
    with la have "?k \<in> set (issued ?c)" by blast
    from issued_fresh[OF c this] show False by simp
  qed
  with s(9) show e: "active (tracker (feed w')) = ?al @ [(?k, a)]"
    by (simp add: update_fresh)
  have 1: "0 \<le> counter (tracker (feed w'))" using s(8) c by simp
  have 2: "\<forall>(key, b) \<in> set (active (tracker (feed w'))).
             b < next_addr w' \<and> key \<in> set (issued (counter (tracker (feed w'))))"
    using la issued_mono[OF c] issued_new[OF c] s(1,2,8) e by (auto simp: less_Suc_eq)
  have 3: "distinct (map snd (active (tracker (feed w'))))"
    using d la s(1) e by auto
  from 1 2 3 show "wf_world w'" by (simp add: wf_world_def list_all_iff)
qed

lemma make_incidents_frame:
  assumes "make_incidents np clk n em w = Inr (em', w')"
  shows "next_addr w' = next_addr w + n \<and> now_calls w \<le> now_calls w'
    \<and> config (feed w') = config (feed w) \<and> grid_width (feed w') = grid_width (feed w)
    \<and> grid_height (feed w') = grid_height (feed w)
    \<and> counter (tracker (feed w')) = counter (tracker (feed w)) + int n
    \<and> em' = em @ [next_addr w..<next_addr w + n]
    \<and> (\<forall>b < next_addr w. heap w' b = heap w b)
    \<and> (\<forall>b. next_addr w \<le> b \<and> b < next_addr w + n \<longrightarrow>
           status (heap w' b) = NEW \<and> \<not> acknowledged (heap w' b))"
  using assms
proof (induction n arbitrary: em w)
  case 0
  then show ?case by auto
next
  case (Suc n)
  from Suc.prems obtain a w1 where
    m: "make_incident np clk w = Inr (a, w1)" and
    r: "make_incidents np clk n (em @ [a]) w1 = Inr (em', w')"
    by (auto split: sum.splits)
  note s = make_incident_spec[OF m]
  note i = Suc.IH[OF r]
  have u: "[next_addr w..<next_addr w + Suc n] = next_addr w # [Suc (next_addr w)..<Suc (next_addr w) + n]"
    by (simp add: upt_rec)
  have old: "\<forall>b < next_addr w. heap w' b = heap w b"
    using i s(1,2,4) by auto
  have new: "\<forall>b. next_addr w \<le> b \<and> b < next_addr w + Suc n \<longrightarrow>
           status (heap w' b) = NEW \<and> \<not> acknowledged (heap w' b)"
  proof (intro allI impI)
    fix b assume b: "next_addr w \<le> b \<and> b < next_addr w + Suc n"
    show "status (heap w' b) = NEW \<and> \<not> acknowledged (heap w' b)"
    proof (cases "b = next_addr w")
      case True
      with i s(1,2) have "heap w' b = heap w1 b" by simp
      with True s(1,5,6) show ?thesis by simp
    next
      case False
      with b i s(2) show ?thesis by simp
    qed
  qed
  from i s u old new show ?case by simp
qed

lemma make_incidents_wf:
  assumes "make_incidents np clk n em w = Inr (em', w')" "wf_world w"
  shows "wf_world w' \<and> set (active (tracker (feed w))) \<subseteq> set (active (tracker (feed w')))"
  using assms
proof (induction n arbitrary: em w)
  case 0
  then show ?case by simp
next
  case (Suc n)
  from Suc.prems(1) obtain a w1 where
    m: "make_incident np clk w = Inr (a, w1)" and
    r: "make_incidents np clk n (em @ [a]) w1 = Inr (em', w')"
    by (auto split: sum.splits)
  from make_incident_wf[OF Suc.prems(2) m] Suc.IH[OF r] show ?case by auto
qed

lemma arrivals_decompose:
  assumes "arrivals np clk w = Inr (em, w1)"
  shows "\<exists>events g. poisson np (incidents_per_min (config (feed w)) / 60) (get_rng w) = Inr (events, g)
     \<and> make_incidents np clk (nat events) [] (set_rng g w) = Inr (em, w1)"
  using assms by (auto simp: arrivals_def Let_def split: sum.splits)

lemma wf_set_rng: "wf_world (set_rng g w) = wf_world w"
  by (simp add: wf_world_def world_simps)

lemma arrivals_frame:
  assumes "arrivals np clk w = Inr (em, w1)"
  shows "next_addr w \<le> next_addr w1" "now_calls w \<le> now_calls w1"
    "config (feed w1) = config (feed w)" "grid_width (feed w1) = grid_width (feed w)"
    "grid_height (feed w1) = grid_height (feed w)"
    "counter (tracker (feed w1)) = counter (tracker (feed w)) + int (next_addr w1 - next_addr w)"
    "em = [next_addr w..<next_addr w1]"
    "b < next_addr w \<Longrightarrow> heap w1 b = heap w b"
    "next_addr w \<le> b \<Longrightarrow> b < next_addr w1 \<Longrightarrow> status (heap w1 b) = NEW \<and> \<not> acknowledged (heap w1 b)"
    "wf_world w \<Longrightarrow> wf_world w1 \<and> set (active (tracker (feed w))) \<subseteq> set (active (tracker (feed w1)))"
proof -
  from arrivals_decompose[OF assms] obtain events g where
    m: "make_incidents np clk (nat events) [] (set_rng g w) = Inr (em, w1)" by blast
  note f = make_incidents_frame[OF m, simplified world_simps]
  from f show "next_addr w \<le> next_addr w1" "now_calls w \<le> now_calls w1"
    "config (feed w1) = config (feed w)" "grid_width (feed w1) = grid_width (feed w)"
    "grid_height (feed w1) = grid_height (feed w)"
    "counter (tracker (feed w1)) = counter (tracker (feed w)) + int (next_addr w1 - next_addr w)"
    "em = [next_addr w..<next_addr w1]"
    by simp_all
  from f show "b < next_addr w \<Longrightarrow> heap w1 b = heap w b" by simp
  from f show "next_addr w \<le> b \<Longrightarrow> b < next_addr w1 \<Longrightarrow> status (heap w1 b) = NEW \<and> \<not> acknowledged (heap w1 b)"
    by simp
  from make_incidents_wf[OF m] show "wf_world w \<Longrightarrow> wf_world w1 \<and> set (active (tracker (feed w))) \<subseteq> set (active (tracker (feed w1)))"
    by (simp add: wf_set_rng world_simps)
qed

lemma step_decompose:
  assumes "step np clk w = Inr (em', w')"
  shows "\<exists>em1 w1 w3. arrivals np clk w = Inr (em1, w1)
     \<and> sweep np clk (clk (now_calls w1)) (iter_active (tracker (feed w1))) em1
          (snd (datetime_now clk w1)) = Inr (em', w3)
     \<and> w' = set_tracker (purge (heap w3) (tracker (feed w3))) w3"
  using assms
  by (auto simp: step_def Let_def split_beta datetime_now_simps split: sum.splits)

lemma wf_purge:
  assumes "wf_world w"
  shows "wf_world (set_tracker (purge (heap w) (tracker (feed w))) w)"
proof -
  let ?al = "active (tracker (feed w))"
  let ?al' = "active (purge (heap w) (tracker (feed w)))"
  have f: "\<exists>P. ?al' = filter P ?al" unfolding purge_active by blast
  then obtain P where e: "?al' = filter P ?al" by blast
  have "distinct (map snd ?al')" using assms unfolding e wf_world_def
    by (simp add: distinct_map_filter)
  moreover have "set ?al' \<subseteq> set ?al" unfolding e by simp
  ultimately show ?thesis using assms
    by (auto simp: wf_world_def world_simps purge_counter list_all_iff)
qed

lemma wf_after_sweep:
  assumes "wf_world w" "tracker (feed w') = tracker (feed w)" "next_addr w' = next_addr w"
  shows "wf_world w'"
  using assms by (simp add: wf_world_def)

lemma sweep_frameD:
  assumes "sweep np clk now as em w = Inr (em', w')"
  shows "tracker (feed w') = tracker (feed w)" "config (feed w') = config (feed w)"
    "grid_width (feed w') = grid_width (feed w)" "grid_height (feed w') = grid_height (feed w)"
    "next_addr w' = next_addr w" "now_calls w \<le> now_calls w'"
    "b \<notin> set as \<Longrightarrow> heap w' b = heap w b"
    "same_identity (heap w b) (heap w' b)"
    "rank (status (heap w b)) \<le> rank (status (heap w' b))"
  using sweep_frame[OF assms] by blast+

lemma step_frame:
  assumes "step np clk w = Inr (em, w')"
  shows "next_addr w \<le> next_addr w'" "now_calls w \<le> now_calls w'"
    "config (feed w') = config (feed w)" "grid_width (feed w') = grid_width (feed w)"
    "grid_height (feed w') = grid_height (feed w)"
    "counter (tracker (feed w')) = counter (tracker (feed w)) + int (next_addr w' - next_addr w)"
    "a < next_addr w \<Longrightarrow> same_identity (heap w a) (heap w' a)"
    "a < next_addr w \<Longrightarrow> rank (status (heap w a)) \<le> rank (status (heap w' a))"
    "wf_world w \<Longrightarrow> wf_world w'"
proof -
  from step_decompose[OF assms] obtain em1 w1 w3 where
    a: "arrivals np clk w = Inr (em1, w1)" and
    s: "sweep np clk (clk (now_calls w1)) (iter_active (tracker (feed w1))) em1
          (snd (datetime_now clk w1)) = Inr (em, w3)" and
    p: "w' = set_tracker (purge (heap w3) (tracker (feed w3))) w3"
    by blast
  note af = arrivals_frame[OF a]
  note sf = sweep_frameD[OF s, simplified datetime_now_simps]
  have h3: "heap w' = heap w3" using p by (simp add: world_simps)
  show "next_addr w \<le> next_addr w'" using af sf p by (simp add: world_simps)
  show "now_calls w \<le> now_calls w'" using af(2) sf p by (simp add: world_simps)
  show "config (feed w') = config (feed w)" using af sf p by (simp add: world_simps)
  show "grid_width (feed w') = grid_width (feed w)" using af sf p by (simp add: world_simps)
  show "grid_height (feed w') = grid_height (feed w)" using af sf p by (simp add: world_simps)
  show "counter (tracker (feed w')) = counter (tracker (feed w)) + int (next_addr w' - next_addr w)"
    using af(6) sf p by (simp add: world_simps purge_counter)
  show "a < next_addr w \<Longrightarrow> same_identity (heap w a) (heap w' a)"
    using af(8)[of a] sf(8)[of a] h3 by simp
  show "a < next_addr w \<Longrightarrow> rank (status (heap w a)) \<le> rank (status (heap w' a))"
    using af(8)[of a] sf(9)[of a] h3 by simp
  show "wf_world w \<Longrightarrow> wf_world w'"
  proof -
    assume "wf_world w"
    with af(10) have "wf_world w1" by simp
    then have "wf_world w3" using sf(1,5) by (rule wf_after_sweep)
    from wf_purge[OF this] p show ?thesis by simp
  qed
qed

lemma step_transition:
  assumes st: "step np clk w = Inr (em, w')" and wf: "wf_world w" and a: "a < next_addr w"
  shows "heap w' a = heap w a \<or>
    (status (heap w a) \<noteq> RESOLVED \<and>
     ((status (heap w' a) = RESOLVED \<and> acknowledged (heap w' a) = acknowledged (heap w a)
        \<and> (\<exists>d k. now_calls w \<le> k \<and> autoresolve_after (heap w a) = Some d
                 \<and> d \<le> clk k - last_update (heap w a)))
      \<or> (status (heap w' a) = next_status (status (heap w a))
        \<and> acknowledged (heap w' a) = (acknowledged (heap w a) \<or> status (heap w a) = NEW))))"
proof -
  from step_decompose[OF st] obtain em1 w1 w3 where
    ar: "arrivals np clk w = Inr (em1, w1)" and
    s: "sweep np clk (clk (now_calls w1)) (iter_active (tracker (feed w1))) em1
          (snd (datetime_now clk w1)) = Inr (em, w3)" and
    p: "w' = set_tracker (purge (heap w3) (tracker (feed w3))) w3"
    by blast
  note af = arrivals_frame[OF ar]
  from af(10) wf have "wf_world w1" by simp
  then have d: "distinct (iter_active (tracker (feed w1)))"
    by (simp add: wf_world_def iter_active_def)
  have h1: "heap w1 a = heap w a" using af(8) a by simp
  have h3: "heap w' = heap w3" using p by (simp add: world_simps)
  have le: "\<And>k. Suc (now_calls w1) \<le> k \<Longrightarrow> now_calls w \<le> k"
    using af(2) by simp
  from sweep_once[OF s d, of a, simplified datetime_now_simps] h1 h3
  show ?thesis by (auto dest: le)
qed

lemma run_ticks_frame:
  assumes "run_ticks np clk n w = Inr (pub, w')"
  shows "next_addr w \<le> next_addr w' \<and> now_calls w \<le> now_calls w'
    \<and> config (feed w') = config (feed w) \<and> grid_width (feed w') = grid_width (feed w)
    \<and> grid_height (feed w') = grid_height (feed w)
    \<and> counter (tracker (feed w')) = counter (tracker (feed w)) + int (next_addr w' - next_addr w)
    \<and> (\<forall>a < next_addr w. same_identity (heap w a) (heap w' a)
           \<and> rank (status (heap w a)) \<le> rank (status (heap w' a)))
    \<and> (wf_world w \<longrightarrow> wf_world w')"
  using assms
proof (induction n arbitrary: w pub)
  case 0
  then show ?case by auto
next
  case (Suc n)
  from Suc.prems obtain em w1 pub1 where
    s: "step np clk w = Inr (em, w1)" and
    r: "run_ticks np clk n w1 = Inr (pub1, w')"
    by (auto split: sum.splits)
  note f = step_frame[OF s]
  note i = Suc.IH[OF r]
  have "\<forall>a < next_addr w. same_identity (heap w a) (heap w' a)
           \<and> rank (status (heap w a)) \<le> rank (status (heap w' a))"
  proof (intro allI impI)
    fix a assume a: "a < next_addr w"
    with f(1) have a1: "a < next_addr w1" by simp
    from f(7)[OF a] f(8)[OF a] i a1
    show "same_identity (heap w a) (heap w' a)
           \<and> rank (status (heap w a)) \<le> rank (status (heap w' a))"
      by (meson same_identity_trans le_trans)
  qed
  moreover have "counter (tracker (feed w')) = counter (tracker (feed w)) + int (next_addr w' - next_addr w)"
    using f(1,6) i by simp
  ultimately show ?case using f(1-5,9) i by simp
qed

lemma make_incidents_new:
  assumes "make_incidents np clk n em w = Inr (em', w')" "next_addr w \<le> b" "b < next_addr w + n"
  shows "\<exists>w0 w1. make_incident np clk w0 = Inr (b, w1) \<and> heap w' b = heap w1 b
     \<and> now_calls w \<le> now_calls w0 \<and> now_calls w1 \<le> now_calls w'
     \<and> config (feed w0) = config (feed w) \<and> grid_width (feed w0) = grid_width (feed w)
     \<and> grid_height (feed w0) = grid_height (feed w)
     \<and> counter (tracker (feed w0)) = counter (tracker (feed w)) + int (b - next_addr w)"
  using assms
proof (induction n arbitrary: em w)
  case 0
  then show ?case by simp
next
  case (Suc n)
  from Suc.prems(1) obtain a w1 where
    m: "make_incident np clk w = Inr (a, w1)" and
    r: "make_incidents np clk n (em @ [a]) w1 = Inr (em', w')"
    by (auto split: sum.splits)
  note s = make_incident_spec[OF m]
  note f = make_incidents_frame[OF r]
  show ?case
  proof (cases "b = next_addr w")
    case True
    with s(1,2) f have "heap w' b = heap w1 b" by simp
    moreover have "now_calls w1 \<le> now_calls w'" using f by simp
    ultimately show ?thesis using m True s(1)
      by (intro exI[of _ w] exI[of _ w1]) simp
  next
    case False
    with Suc.prems(2,3) s(2) have b: "next_addr w1 \<le> b" "b < next_addr w1 + n" by simp_all
    from Suc.IH[OF r b] obtain w0 w2 where
      i: "make_incident np clk w0 = Inr (b, w2)" "heap w' b = heap w2 b"
         "now_calls w1 \<le> now_calls w0" "now_calls w2 \<le> now_calls w'"
         "config (feed w0) = config (feed w1)" "grid_width (feed w0) = grid_width (feed w1)"
         "grid_height (feed w0) = grid_height (feed w1)"
         "counter (tracker (feed w0)) = counter (tracker (feed w1)) + int (b - next_addr w1)"
      by blast
    have c: "counter (tracker (feed w0)) = counter (tracker (feed w)) + int (b - next_addr w)"
      using i(8) s(2,8) b(1) by simp
    have n: "now_calls w \<le> now_calls w0" using i(3) s(3) by simp
    show ?thesis
      by (intro exI[of _ w0] exI[of _ w2]) (use i s c n in simp)
  qed
qed

lemma step_new:
  assumes "step np clk w = Inr (em, w')" "next_addr w \<le> b" "b < next_addr w'"
  shows "\<exists>w0 w1. make_incident np clk w0 = Inr (b, w1) \<and> same_identity (heap w1 b) (heap w' b)
     \<and> rank (status (heap w1 b)) \<le> rank (status (heap w' b))
     \<and> now_calls w \<le> now_calls w0
     \<and> config (feed w0) = config (feed w) \<and> grid_width (feed w0) = grid_width (feed w)
     \<and> grid_height (feed w0) = grid_height (feed w)
     \<and> counter (tracker (feed w0)) = counter (tracker (feed w)) + int (b - next_addr w)"
proof -
  from step_decompose[OF assms(1)] obtain em1 w1 w3 where
    a: "arrivals np clk w = Inr (em1, w1)" and
    s: "sweep np clk (clk (now_calls w1)) (iter_active (tracker (feed w1))) em1
          (snd (datetime_now clk w1)) = Inr (em, w3)" and
    p: "w' = set_tracker (purge (heap w3) (tracker (feed w3))) w3"
    by blast
  from arrivals_decompose[OF a] obtain events g where
    m: "make_incidents np clk (nat events) [] (set_rng g w) = Inr (em1, w1)" by blast
  note sf = sweep_frameD[OF s, simplified datetime_now_simps]
  have h3: "heap w' = heap w3" and n3: "next_addr w' = next_addr w3"
    using p by (simp_all add: world_simps)
  note mf = make_incidents_frame[OF m, simplified world_simps]
  from mf sf(5) n3 assms(3) have b: "b < next_addr w + nat events" by simp
  from make_incidents_new[OF m, simplified world_simps, OF assms(2) b] obtain w0 w2 where
    i: "make_incident np clk w0 = Inr (b, w2)" "heap w1 b = heap w2 b"
       "now_calls w \<le> now_calls w0"
       "config (feed w0) = config (feed w)" "grid_width (feed w0) = grid_width (feed w)"
       "grid_height (feed w0) = grid_height (feed w)"
       "counter (tracker (feed w0)) = counter (tracker (feed w)) + int (b - next_addr w)"
    by blast
  show ?thesis
    by (intro exI[of _ w0] exI[of _ w2]) (use i sf(8)[of b] sf(9)[of b] h3 in simp)
qed

lemma run_ticks_grid:
  assumes c: "integers_in_range np" and r: "run_ticks np clk n w = Inr (pub, w')"
    and a: "next_addr w \<le> a" "a < next_addr w'"
  shows "in_grid (grid_width (feed w)) (grid_height (feed w)) (location (heap w' a))"
  using r a
proof (induction n arbitrary: w pub)
  case 0
  then show ?case by simp
next
  case (Suc n)
  from Suc.prems(1) obtain em w1 pub1 where
    s: "step np clk w = Inr (em, w1)" and
    r: "run_ticks np clk n w1 = Inr (pub1, w')"
    by (auto split: sum.splits)
  note f = step_frame[OF s]
  show ?case
  proof (cases "a < next_addr w1")
    case True
    from step_new[OF s Suc.prems(2) True] obtain w0 w2 where
      m: "make_incident np clk w0 = Inr (a, w2)" and
      i: "same_identity (heap w2 a) (heap w1 a)" and
      g: "grid_width (feed w0) = grid_width (feed w)" "grid_height (feed w0) = grid_height (feed w)"
      by blast
    from make_incident_spec(16)[OF m] g obtain x y gx gx' gy gy' where
      l: "location (heap w2 a) = Some (x, y)" and
      ix: "integers np 0 (grid_width (feed w)) gx = Inr (x, gx')" and
      iy: "integers np 0 (grid_height (feed w)) gy = Inr (y, gy')"
      by auto
    from c ix have "0 \<le> x \<and> x < grid_width (feed w)"
      unfolding integers_in_range_def by blast
    moreover from c iy have "0 \<le> y \<and> y < grid_height (feed w)"
      unfolding integers_in_range_def by blast
    ultimately
    have "in_grid (grid_width (feed w)) (grid_height (feed w)) (location (heap w2 a))"
      using l by (simp add: in_grid_def)
    moreover from run_ticks_frame[OF r] True have "same_identity (heap w1 a) (heap w' a)" by simp
    ultimately show ?thesis using i by (simp add: same_identity_def)
  next
    case False
    then have "next_addr w1 \<le> a" by simp
    from Suc.IH[OF r this Suc.prems(3)] f(4,5) show ?thesis by simp
  qed
qed

lemma world_init_fields:
  assumes "world_init np s cfg bufs mc = Inr w0"
  shows "next_addr w0 = 0" "counter (tracker (feed w0)) = 0" "active (tracker (feed w0)) = []"
    "config (feed w0) = cfg" "grid_width (feed w0) = fst (grid mc)"
    "grid_height (feed w0) = snd (grid mc)" "now_calls w0 = 0" "wf_world w0"
  using assms
  by (auto simp: world_init_def IncidentsFeed_init_def IncidentTracker_init_def wf_world_def
      split: sum.splits)

lemma arrivals_new:
  assumes "arrivals np clk w = Inr (cr, w1)" "next_addr w \<le> b" "b < next_addr w1"
  shows "\<exists>w0 w2. make_incident np clk w0 = Inr (b, w2) \<and> heap w1 b = heap w2 b
     \<and> now_calls w \<le> now_calls w0 \<and> now_calls w2 \<le> now_calls w1"
proof -
  from arrivals_decompose[OF assms(1)] obtain events g where
    m: "make_incidents np clk (nat events) [] (set_rng g w) = Inr (cr, w1)" by blast
  note mf = make_incidents_frame[OF m, simplified world_simps]
  from mf assms(3) have b: "b < next_addr w + nat events" by simp
  from make_incidents_new[OF m, simplified world_simps, OF assms(2) b]
  show ?thesis by blast
qed

lemma step_emitted_prefix:
  assumes "step np clk w = Inr (em, w')" "arrivals np clk w = Inr (cr, w1)"
  shows "take (length cr) em = cr"
proof -
  from step_decompose[OF assms(1)] assms(2) obtain w3 where
    s: "sweep np clk (clk (now_calls w1)) (iter_active (tracker (feed w1))) cr
          (snd (datetime_now clk w1)) = Inr (em, w3)"
    by auto
  from sweep_emitted_prefix[OF s] show ?thesis .
qed

lemma step_created:
  assumes st: "step np clk w = Inr (em, w')" and wf: "wf_world w"
    and ar: "arrivals np clk w = Inr (cr, w1)"
    and b: "next_addr w \<le> b" "b < next_addr w1"
  shows "(b \<notin> set (drop (length cr) em) \<and> status (heap w' b) = NEW \<and> \<not> acknowledged (heap w' b))
     \<or> (b \<in> set (drop (length cr) em)
         \<and> ((status (heap w' b) = ACKNOWLEDGED \<and> acknowledged (heap w' b))
            \<or> (status (heap w' b) = RESOLVED \<and> \<not> acknowledged (heap w' b)
                \<and> (\<exists>d j k. now_calls w \<le> j \<and> j < k \<and> autoresolve_after (heap w' b) = Some d
                      \<and> d \<le> clk k - clk j))))"
proof -
  from step_decompose[OF st] ar obtain w3 where
    s: "sweep np clk (clk (now_calls w1)) (iter_active (tracker (feed w1))) cr
          (snd (datetime_now clk w1)) = Inr (em, w3)" and
    p: "w' = set_tracker (purge (heap w3) (tracker (feed w3))) w3"
    by auto
  have h3: "heap w' = heap w3" using p by (simp add: world_simps)
  note af = arrivals_frame[OF ar]
  from af(10) wf have "wf_world w1" by simp
  then have d: "distinct (iter_active (tracker (feed w1)))"
    by (simp add: wf_world_def iter_active_def)
  from sweep_frame[OF s, simplified datetime_now_simps] obtain ems where
    e: "em = cr @ ems" and
    u: "\<forall>b. b \<notin> set ems \<longrightarrow> heap w3 b = heap w1 b" and
    r: "\<forall>b \<in> set ems. rank (status (heap w1 b)) < rank (status (heap w3 b))"
    by blast
  from e have dr: "drop (length cr) em = ems" by simp
  from af(9)[OF b] have n: "status (heap w1 b) = NEW" "\<not> acknowledged (heap w1 b)" by simp_all
  from arrivals_new[OF ar b] obtain w0 w2 where
    m: "make_incident np clk w0 = Inr (b, w2)" and hb: "heap w1 b = heap w2 b" and
    n0: "now_calls w \<le> now_calls w0" and n2: "now_calls w2 \<le> now_calls w1"
    by blast
  note ms = make_incident_spec[OF m]
  show "(b \<notin> set (drop (length cr) em) \<and> status (heap w' b) = NEW \<and> \<not> acknowledged (heap w' b))
     \<or> (b \<in> set (drop (length cr) em)
         \<and> ((status (heap w' b) = ACKNOWLEDGED \<and> acknowledged (heap w' b))
            \<or> (status (heap w' b) = RESOLVED \<and> \<not> acknowledged (heap w' b)
                \<and> (\<exists>d j k. now_calls w \<le> j \<and> j < k \<and> autoresolve_after (heap w' b) = Some d
                      \<and> d \<le> clk k - clk j))))"
  proof (cases "b \<in> set ems")
    case False
    with u have "heap w3 b = heap w1 b" by blast
    with False n dr h3 show ?thesis by simp
  next
    case True
    with r n have ne: "status (heap w3 b) \<noteq> NEW" by auto
    then have neq: "heap w3 b \<noteq> heap w1 b" using n by auto
    from sweep_frameD(8)[OF s, simplified datetime_now_simps, of b]
    have si: "autoresolve_after (heap w3 b) = autoresolve_after (heap w1 b)"
      by (simp add: same_identity_def)
    from sweep_once[OF s d, of b, simplified datetime_now_simps] neq n
    have "(status (heap w3 b) = RESOLVED \<and> \<not> acknowledged (heap w3 b)
             \<and> (\<exists>d k. Suc (now_calls w1) \<le> k \<and> autoresolve_after (heap w1 b) = Some d
                      \<and> d \<le> clk k - last_update (heap w1 b)))
           \<or> (status (heap w3 b) = ACKNOWLEDGED \<and> acknowledged (heap w3 b))"
      by auto
    then show ?thesis
    proof
      assume x: "status (heap w3 b) = ACKNOWLEDGED \<and> acknowledged (heap w3 b)"
      with True dr h3 show ?thesis by simp
    next
      assume x: "status (heap w3 b) = RESOLVED \<and> \<not> acknowledged (heap w3 b)
             \<and> (\<exists>d k. Suc (now_calls w1) \<le> k \<and> autoresolve_after (heap w1 b) = Some d
                      \<and> d \<le> clk k - last_update (heap w1 b))"
      then obtain dd k where k: "Suc (now_calls w1) \<le> k"
        and a1: "autoresolve_after (heap w1 b) = Some dd"
        and le: "dd \<le> clk k - last_update (heap w1 b)" by blast
      from ms(13) hb have lu: "last_update (heap w1 b) = clk (Suc (now_calls w0))" by simp
      have j1: "now_calls w \<le> Suc (now_calls w0)" using n0 by simp
      have j2: "Suc (now_calls w0) < k" using k n2 ms(3) by simp
      have "\<exists>d j k. now_calls w \<le> j \<and> j < k \<and> autoresolve_after (heap w3 b) = Some d
                      \<and> d \<le> clk k - clk j"
        using j1 j2 a1 le lu si by (intro exI[of _ dd] exI[of _ "Suc (now_calls w0)"] exI[of _ k]) simp
      with x True dr h3 show ?thesis by simp
    qed
  qed
qed

lemma step_autoresolve:
  assumes wf: "wf_world w" and t: "(key, a) \<in> set (active (tracker (feed w)))"
    and ns: "status (heap w a) \<noteq> RESOLVED" and d: "autoresolve_after (heap w a) = Some d"
    and el: "\<forall>k \<ge> now_calls w. d \<le> clk k - last_update (heap w a)"
    and st: "step np clk w = Inr (em, w')"
  shows "a \<in> set em" "status (heap w' a) = RESOLVED"
    "acknowledged (heap w' a) = acknowledged (heap w a)"
proof -
  from step_decompose[OF st] obtain em1 w1 w3 where
    ar: "arrivals np clk w = Inr (em1, w1)" and
    s: "sweep np clk (clk (now_calls w1)) (iter_active (tracker (feed w1))) em1
          (snd (datetime_now clk w1)) = Inr (em, w3)" and
    p: "w' = set_tracker (purge (heap w3) (tracker (feed w3))) w3"
    by blast
  have h3: "heap w' = heap w3" using p by (simp add: world_simps)
  note af = arrivals_frame[OF ar]
  from wf t have a: "a < next_addr w" by (auto simp: wf_world_def list_all_iff)
  from af(8)[OF a] have h1: "heap w1 a = heap w a" .
  from af(10) wf t have "(key, a) \<in> set (active (tracker (feed w1)))" by blast
  then have m: "a \<in> set (iter_active (tracker (feed w1)))"
    by (force simp: iter_active_def)
  let ?w2 = "snd (datetime_now clk w1)"
  have 1: "status (heap ?w2 a) \<noteq> RESOLVED" using ns h1 by (simp add: datetime_now_simps)
  have 2: "autoresolve_after (heap ?w2 a) = Some d" using d h1 by (simp add: datetime_now_simps)
  have 3: "\<forall>k \<ge> now_calls ?w2. d \<le> clk k - last_update (heap ?w2 a)"
    using el h1 af(2) by (simp add: datetime_now_simps)
  from sweep_autoresolve[OF s m 1 2 3] h1 h3
  show "a \<in> set em" "status (heap w' a) = RESOLVED"
    "acknowledged (heap w' a) = acknowledged (heap w a)"
    by (auto simp: datetime_now_simps dest: in_set_dropD)
qed

lemma step_next_addr:
  assumes "step np clk w = Inr (em, w')" "arrivals np clk w = Inr (cr, w1)"
  shows "next_addr w' = next_addr w1"
proof -
  from step_decompose[OF assms(1)] assms(2) obtain w3 where
    s: "sweep np clk (clk (now_calls w1)) (iter_active (tracker (feed w1))) cr
          (snd (datetime_now clk w1)) = Inr (em, w3)" and
    p: "w' = set_tracker (purge (heap w3) (tracker (feed w3))) w3"
    by auto
  from sweep_frameD(5)[OF s] p show ?thesis by (simp add: world_simps)
qed

lemma returned_cases:
  assumes "case x of Inl e \<Rightarrow> False | Inr r \<Rightarrow> P r"
  obtains r where "x = Inr r" "P r"
  using assms by (cases x) auto

lemma start_world_wf: "wf_world (start_world g)"
  by (simp add: wf_world_def start_world_def IncidentsFeed_init_def IncidentTracker_init_def)

lemma counting_rng_integers: "integers_in_range counting_rng"
proof -
  have "\<And>lo hi :: int. \<And>g :: nat. lo < hi \<Longrightarrow> lo + int g mod (hi - lo) < hi"
  proof -
    fix lo hi :: int and g :: nat
    assume "lo < hi"
    then have "int g mod (hi - lo) < hi - lo" by simp
    then show "lo + int g mod (hi - lo) < hi" by linarith
  qed
  then show ?thesis
    unfolding integers_in_range_def counting_rng_def
    by (auto split: if_splits)
qed

lemma world_init_counting:
  "0 \<le> s \<Longrightarrow> world_init counting_rng s default_feeds default_buffers default_map
     = Inr (start_world (nat s))"
  by (simp add: world_init_def FeedState_init_def counting_rng_def start_world_def)

lemma run_ticks_identifiers_from:
  assumes r: "run_ticks np clk n w = Inr (pub, w')"
    and a: "next_addr w \<le> a" "a < next_addr w'"
  shows "identifier (heap w' a)
     = CHR ''A'' # format_04d (counter (tracker (feed w)) + int (a - next_addr w) + 1)"
  using r a
proof (induction n arbitrary: w pub)
  case 0
  then show ?case by simp
next
  case (Suc n)
  from Suc.prems(1) obtain em w1 pub1 where
    s: "step np clk w = Inr (em, w1)" and
    r: "run_ticks np clk n w1 = Inr (pub1, w')"
    by (auto split: sum.splits)
  note f = step_frame[OF s]
  show ?case
  proof (cases "a < next_addr w1")
    case True
    from step_new[OF s Suc.prems(2) True] obtain w0 w2 where
      m: "make_incident np clk w0 = Inr (a, w2)" and
      i: "same_identity (heap w2 a) (heap w1 a)" and
      k: "counter (tracker (feed w0)) = counter (tracker (feed w)) + int (a - next_addr w)"
      by blast
    from make_incident_spec(7)[OF m] k
    have "identifier (heap w2 a)
       = CHR ''A'' # format_04d (counter (tracker (feed w)) + int (a - next_addr w) + 1)"
      by simp
    moreover from run_ticks_frame[OF r] True have "same_identity (heap w1 a) (heap w' a)" by simp
    ultimately show ?thesis using i by (simp add: same_identity_def)
  next
    case False
    then have b: "next_addr w1 \<le> a" by simp
    from Suc.IH[OF r b Suc.prems(3)] f(1,6) b
    show ?thesis by (simp add: of_nat_diff algebra_simps)
  qed
qed

lemma IncidentsFeed_reset_fields:
  "counter (tracker (feed (IncidentsFeed_reset w))) = 0"
  "next_addr (IncidentsFeed_reset w) = next_addr w"
  "active (tracker (feed (IncidentsFeed_reset w))) = []"
  "heap (IncidentsFeed_reset w) = heap w"
  by (simp_all add: IncidentsFeed_reset_def IncidentTracker_init_def)

subsection \<open>Two runs of one feed under two clocks\<close>




lemma similar_resolve:
  "similar i j \<Longrightarrow> similar (i\<lparr>status := RESOLVED, last_update := n1\<rparr>) (j\<lparr>status := RESOLVED, last_update := n2\<rparr>)"
  by (simp add: similar_def)






















section \<open>FeedState: reset and replay\<close>

text \<open>
  Claim C9. \<open>reset()\<close> without an argument leaves a \<open>FeedState\<close> exactly as a freshly
  constructed \<open>FeedState\<close> with the stored seed (so every later draw is the same), for
  any state the generator was in; \<open>reset(s')\<close> leaves it as a fresh \<open>FeedState(s')\<close>,
  stored seed included, so that a later \<open>reset()\<close> replays \<open>s'\<close>. Where numpy rejects
  the seed, both sides raise the same error.
\<close>

theorem FeedState_reset_replays:
  "FeedState_reset np None st = FeedState_init np (seed st)
   \<and> FeedState_reset np (Some s') st = FeedState_init np s'
   \<and> (case FeedState_reset np (Some s') st of
         Inl e \<Rightarrow> Inl e
       | Inr st' \<Rightarrow> FeedState_reset np None st') = FeedState_init np s'"
  by (cases "default_rng np s'")
     (simp_all add: FeedState_reset_def FeedState_init_def split: sum.splits)

section \<open>MetricsFeed: bounded samples\<close>

lemma sample_bounds:
  assumes "sample np t f = Inr (s, f')"
  shows "1 \<le> cpu_percent s \<and> cpu_percent s \<le> 98
       \<and> 5 \<le> memory_percent s \<and> memory_percent s \<le> 95"
  using assms
  by (auto simp: sample_def Let_def clip_def split: sum.splits prod.splits if_splits)

text \<open>
  Claim C7. Whatever state a metrics feed is in, every sample of any run of consecutive
  \<open>sample\<close> calls has its cpu value in [1, 98] and its memory value in [5, 95].
\<close>

theorem samples_bounded:
  "samples np clk k n f = Inr (ss, f') \<Longrightarrow>
   \<forall>s \<in> set ss. 1 \<le> cpu_percent s \<and> cpu_percent s \<le> 98
                \<and> 5 \<le> memory_percent s \<and> memory_percent s \<le> 95"
proof (induction n arbitrary: k f ss)
  case 0
  then show ?case by simp
next
  case (Suc n)
  from Suc.prems obtain s f1 ss1 where
    s: "sample np (clk k) f = Inr (s, f1)" and
    r: "samples np clk (Suc k) n f1 = Inr (ss1, f')" and
    e: "ss = s # ss1"
    by (auto split: sum.splits prod.splits)
  from sample_bounds[OF s] Suc.IH[OF r] e show ?case by simp
qed

theorem samples_bounded_witness:
  "\<exists>ss f'. samples counting_rng clock_1s 0 3 metrics_start = Inr (ss, f')
     \<and> map cpu_percent ss = [57, 53, 53]
     \<and> list_all (\<lambda>s. 1 \<le> cpu_percent s \<and> cpu_percent s \<le> 98
                   \<and> 5 \<le> memory_percent s \<and> memory_percent s \<le> 95) ss"
proof -
  have "case samples counting_rng clock_1s 0 3 metrics_start of
          Inl e \<Rightarrow> False
        | Inr r \<Rightarrow> map cpu_percent (fst r) = [57, 53, 53]"
    by code_simp
  then obtain ss f' where
    r: "samples counting_rng clock_1s 0 3 metrics_start = Inr (ss, f')" and
    c: "map cpu_percent ss = [57, 53, 53]"
    by (auto split: sum.splits)
  from samples_bounded[OF r] have
    b: "list_all (\<lambda>s. 1 \<le> cpu_percent s \<and> cpu_percent s \<le> 98
                 \<and> 5 \<le> memory_percent s \<and> memory_percent s \<le> 95) ss"
    by (simp add: list_all_iff)
  show ?thesis
    by (rule exI[of _ ss], rule exI[of _ f']) (simp only: r c b simp_thms)
qed

section \<open>IncidentsFeed: the tick\<close>

lemma aged_world_facts:
  "wf_world aged_world" "(''A0001'', 0) \<in> set (active (tracker (feed aged_world)))"
  "status (heap aged_world 0) = NEW" "autoresolve_after (heap aged_world 0) = Some 30"
  "last_update (heap aged_world 0) = - 100" "now_calls aged_world = 0"
  "next_addr aged_world = 2" "acknowledged (heap aged_world 0) = False"
  by code_simp+

lemma aged_world_due: "\<forall>k \<ge> now_calls aged_world. 30 \<le> clock_1s k - last_update (heap aged_world 0)"
  by (simp add: aged_world_facts clock_1s_def)

text \<open>
  Claim C4. When \<open>step\<close> has returned, no incident that the tracker still holds has
  status RESOLVED, whether it was resolved before the call or during it.
\<close>

theorem step_purges_resolved:
  "step np clk w = Inr (emitted, w') \<Longrightarrow>
   \<forall>(key, a) \<in> set (active (tracker (feed w'))). status (heap w' a) \<noteq> RESOLVED"
  by (auto simp: step_def Let_def set_tracker_simps split: sum.splits prod.splits dest: purge_no_resolved)

theorem step_purges_resolved_witness:
  "\<exists>em w'. step counting_rng clock_1s aged_world = Inr (em, w')
     \<and> map (\<lambda>a. status (heap w' a)) em = [RESOLVED]
     \<and> active (tracker (feed w')) = [(''A0002'', 1)]
     \<and> list_all (\<lambda>(key, a). status (heap w' a) \<noteq> RESOLVED) (active (tracker (feed w')))"
proof -
  have "case step counting_rng clock_1s aged_world of
          Inl e \<Rightarrow> False
        | Inr (em, w') \<Rightarrow>
            map (\<lambda>a. status (heap w' a)) em = [RESOLVED]
            \<and> active (tracker (feed w')) = [(''A0002'', 1)]"
    by code_simp
  then obtain em w' where
    s: "step counting_rng clock_1s aged_world = Inr (em, w')" and
    e: "map (\<lambda>a. status (heap w' a)) em = [RESOLVED]" and
    k: "active (tracker (feed w')) = [(''A0002'', 1)]"
    by (auto split: sum.splits)
  from step_purges_resolved[OF s]
  have p: "list_all (\<lambda>(key, a). status (heap w' a) \<noteq> RESOLVED) (active (tracker (feed w')))"
    by (simp add: list_all_iff)
  show ?thesis
    by (rule exI[of _ em], rule exI[of _ w']) (intro conjI s e k p)
qed

text \<open>
  Claim C3. A tracked incident that is not resolved and whose deadline has elapsed at
  every clock reading from the start of the tick on is, after the next \<open>step\<close>, in the
  returned list with status RESOLVED, whatever its status was. The check comes before the
  roll: the loop body resolves such an incident and leaves the generator as it was.
\<close>

theorem autoresolve_has_priority:
  assumes "wf_world w" "(key, a) \<in> set (active (tracker (feed w)))"
    "status (heap w a) \<noteq> RESOLVED" "autoresolve_after (heap w a) = Some d"
    "\<forall>k \<ge> now_calls w. d \<le> clk k - last_update (heap w a)"
    "step np clk w = Inr (em, w')"
  shows "a \<in> set em \<and> status (heap w' a) = RESOLVED
    \<and> (\<exists>w1. progress np clk now a em0 w = Inr (em0 @ [a], w1)
             \<and> status (heap w1 a) = RESOLVED \<and> get_rng w1 = get_rng w)"
proof -
  from assms(5) have "d \<le> clk (now_calls w) - last_update (heap w a)" by simp
  from progress_autoresolve[where np=np and clk=clk and now=now and em=em0 and w=w and a=a and d=d,
      OF assms(3,4) this]
  have "\<exists>w1. progress np clk now a em0 w = Inr (em0 @ [a], w1)
             \<and> status (heap w1 a) = RESOLVED \<and> get_rng w1 = get_rng w"
    by blast
  with step_autoresolve(1,2)[OF assms] show ?thesis by simp
qed

theorem autoresolve_has_priority_witness:
  "wf_world aged_world \<and> (''A0001'', 0) \<in> set (active (tracker (feed aged_world)))
   \<and> status (heap aged_world 0) = NEW \<and> autoresolve_after (heap aged_world 0) = Some 30
   \<and> (\<exists>em w'. step counting_rng clock_1s aged_world = Inr (em, w')
         \<and> 0 \<in> set em \<and> status (heap w' 0) = RESOLVED)
   \<and> (\<exists>w1. progress counting_rng clock_1s 0 0 [] aged_world = Inr ([] @ [0], w1)
         \<and> status (heap w1 0) = RESOLVED \<and> get_rng w1 = get_rng aged_world)"
proof -
  have "case step counting_rng clock_1s aged_world of Inl e \<Rightarrow> False | Inr r \<Rightarrow> True"
    by code_simp
  then obtain em w' where s: "step counting_rng clock_1s aged_world = Inr (em, w')"
    by (auto split: sum.splits)
  have n: "status (heap aged_world 0) \<noteq> RESOLVED" by (simp add: aged_world_facts)
  from autoresolve_has_priority[OF aged_world_facts(1,2) n aged_world_facts(4) aged_world_due s,
      of 0 "[]"]
  have c: "0 \<in> set em \<and> status (heap w' 0) = RESOLVED
    \<and> (\<exists>w1. progress counting_rng clock_1s 0 0 [] aged_world = Inr ([] @ [0], w1)
             \<and> status (heap w1 0) = RESOLVED \<and> get_rng w1 = get_rng aged_world)" .
  then have "\<exists>em w'. step counting_rng clock_1s aged_world = Inr (em, w')
         \<and> 0 \<in> set em \<and> status (heap w' 0) = RESOLVED"
    using s by blast
  with c aged_world_facts(1-4) show ?thesis by (intro conjI) blast+
qed

text \<open>
  Claim C10. A \<open>step\<close> leaves identifier, timestamp, category, severity, region,
  description, deadline and location of every existing incident as they were. The
  acknowledged flag changes only together with a move from NEW to ACKNOWLEDGED (made by
  \<open>advance_status\<close>); an auto-resolve leaves the flag as it was, so an incident
  auto-resolved from NEW is returned with status RESOLVED and the flag still unset.
\<close>

theorem transitions_change_status_fields_only:
  assumes "wf_world w" "step np clk w = Inr (em, w')" "a < next_addr w"
  shows "same_identity (heap w a) (heap w' a)
    \<and> (acknowledged (heap w' a) \<noteq> acknowledged (heap w a) \<longrightarrow>
          status (heap w a) = NEW \<and> status (heap w' a) = ACKNOWLEDGED \<and> acknowledged (heap w' a))
    \<and> ((key, a) \<in> set (active (tracker (feed w))) \<and> status (heap w a) \<noteq> RESOLVED
          \<and> autoresolve_after (heap w a) = Some d
          \<and> (\<forall>k \<ge> now_calls w. d \<le> clk k - last_update (heap w a)) \<longrightarrow>
        a \<in> set em \<and> status (heap w' a) = RESOLVED
          \<and> acknowledged (heap w' a) = acknowledged (heap w a))
    \<and> acknowledged (advance_status t i) = (acknowledged i \<or> status i = NEW)
    \<and> same_identity i (advance_status t i)"
proof -
  from step_transition[OF assms(2,1,3)]
  have 2: "acknowledged (heap w' a) \<noteq> acknowledged (heap w a) \<longrightarrow>
          status (heap w a) = NEW \<and> status (heap w' a) = ACKNOWLEDGED \<and> acknowledged (heap w' a)"
    by auto
  have 3: "(key, a) \<in> set (active (tracker (feed w))) \<and> status (heap w a) \<noteq> RESOLVED
          \<and> autoresolve_after (heap w a) = Some d
          \<and> (\<forall>k \<ge> now_calls w. d \<le> clk k - last_update (heap w a)) \<longrightarrow>
        a \<in> set em \<and> status (heap w' a) = RESOLVED
          \<and> acknowledged (heap w' a) = acknowledged (heap w a)"
    using step_autoresolve[OF assms(1) _ _ _ _ assms(2)] by blast
  have 4: "acknowledged (advance_status t i) = (acknowledged i \<or> status i = NEW)"
    by (rule advance_status_fields)
  have 5: "same_identity i (advance_status t i)"
    by (rule advance_status_fields)
  from step_frame(7)[OF assms(2,3)] 2 3 4 5 show ?thesis
    by (intro conjI)
qed

theorem transitions_change_status_fields_only_witness:
  "wf_world aged_world \<and> 0 < next_addr aged_world
   \<and> status (heap aged_world 0) = NEW \<and> \<not> acknowledged (heap aged_world 0)
   \<and> (\<exists>em w'. step counting_rng clock_1s aged_world = Inr (em, w')
         \<and> same_identity (heap aged_world 0) (heap w' 0)
         \<and> 0 \<in> set em \<and> status (heap w' 0) = RESOLVED \<and> \<not> acknowledged (heap w' 0))"
proof -
  have "case step counting_rng clock_1s aged_world of Inl e \<Rightarrow> False | Inr r \<Rightarrow> True"
    by code_simp
  then obtain em w' where s: "step counting_rng clock_1s aged_world = Inr (em, w')"
    by (auto split: sum.splits)
  have a: "0 < next_addr aged_world" by (simp add: aged_world_facts)
  have n: "status (heap aged_world 0) \<noteq> RESOLVED" by (simp add: aged_world_facts)
  from transitions_change_status_fields_only[OF aged_world_facts(1) s a,
      of "''A0001''" 30]
    aged_world_facts(2,4,8) n aged_world_due
  have "same_identity (heap aged_world 0) (heap w' 0)
         \<and> 0 \<in> set em \<and> status (heap w' 0) = RESOLVED \<and> \<not> acknowledged (heap w' 0)"
    by simp
  with s have "\<exists>em w'. step counting_rng clock_1s aged_world = Inr (em, w')
         \<and> same_identity (heap aged_world 0) (heap w' 0)
         \<and> 0 \<in> set em \<and> status (heap w' 0) = RESOLVED \<and> \<not> acknowledged (heap w' 0)"
    by blast
  with a aged_world_facts(1,3,8) show ?thesis by simp
qed

text \<open>
  Claim C6. Over any number of ticks the status of an incident never moves backwards in
  the order NEW, ACKNOWLEDGED, IN-PROGRESS, RESOLVED. In one tick an existing incident keeps
  its status, moves one status forward, or is auto-resolved with its deadline elapsed at a
  clock reading of that tick; an incident created in the tick ends it as NEW, as
  ACKNOWLEDGED, or auto-resolved. \<open>advance_status\<close> itself moves exactly one status
  forward (and leaves RESOLVED as it is).
\<close>

theorem status_never_regresses:
  assumes "wf_world w0" "run_ticks np clk n w0 = Inr (pub, w)" "step np clk w = Inr (em, w')"
  shows "(\<forall>a < next_addr w0. rank (status (heap w0 a)) \<le> rank (status (heap w a)))
    \<and> (\<forall>a < next_addr w.
          rank (status (heap w a)) \<le> rank (status (heap w' a))
          \<and> (status (heap w' a) = status (heap w a)
              \<or> status (heap w' a) = next_status (status (heap w a))
              \<or> (status (heap w' a) = RESOLVED
                  \<and> (\<exists>d k. now_calls w \<le> k \<and> autoresolve_after (heap w a) = Some d
                           \<and> d \<le> clk k - last_update (heap w a)))))
    \<and> (\<forall>a. next_addr w \<le> a \<and> a < next_addr w' \<longrightarrow>
          status (heap w' a) = NEW \<or> status (heap w' a) = ACKNOWLEDGED
          \<or> (status (heap w' a) = RESOLVED
              \<and> (\<exists>d j k. now_calls w \<le> j \<and> j < k \<and> autoresolve_after (heap w' a) = Some d
                         \<and> d \<le> clk k - clk j)))
    \<and> (\<forall>t i. status (advance_status t i) = next_status (status i))"
proof -
  note r = run_ticks_frame[OF assms(2)]
  from r assms(1) have wf: "wf_world w" by simp
  from r have 1: "\<forall>a < next_addr w0. rank (status (heap w0 a)) \<le> rank (status (heap w a))"
    by simp
  have 2: "\<forall>a < next_addr w.
          rank (status (heap w a)) \<le> rank (status (heap w' a))
          \<and> (status (heap w' a) = status (heap w a)
              \<or> status (heap w' a) = next_status (status (heap w a))
              \<or> (status (heap w' a) = RESOLVED
                  \<and> (\<exists>d k. now_calls w \<le> k \<and> autoresolve_after (heap w a) = Some d
                           \<and> d \<le> clk k - last_update (heap w a))))"
  proof (intro allI impI)
    fix a assume a: "a < next_addr w"
    from step_transition[OF assms(3) wf a]
    have "status (heap w' a) = status (heap w a)
              \<or> status (heap w' a) = next_status (status (heap w a))
              \<or> (status (heap w' a) = RESOLVED
                  \<and> (\<exists>d k. now_calls w \<le> k \<and> autoresolve_after (heap w a) = Some d
                           \<and> d \<le> clk k - last_update (heap w a)))"
      by (elim disjE conjE) simp_all
    with step_frame(8)[OF assms(3) a]
    show "rank (status (heap w a)) \<le> rank (status (heap w' a))
          \<and> (status (heap w' a) = status (heap w a)
              \<or> status (heap w' a) = next_status (status (heap w a))
              \<or> (status (heap w' a) = RESOLVED
                  \<and> (\<exists>d k. now_calls w \<le> k \<and> autoresolve_after (heap w a) = Some d
                           \<and> d \<le> clk k - last_update (heap w a))))"
      by (rule conjI)
  qed
  have 3: "\<forall>a. next_addr w \<le> a \<and> a < next_addr w' \<longrightarrow>
          status (heap w' a) = NEW \<or> status (heap w' a) = ACKNOWLEDGED
          \<or> (status (heap w' a) = RESOLVED
              \<and> (\<exists>d j k. now_calls w \<le> j \<and> j < k \<and> autoresolve_after (heap w' a) = Some d
                         \<and> d \<le> clk k - clk j))"
  proof (intro allI impI)
    fix a assume a: "next_addr w \<le> a \<and> a < next_addr w'"
    from step_decompose[OF assms(3)] obtain cr w1 where
      ar: "arrivals np clk w = Inr (cr, w1)" by blast
    from step_next_addr[OF assms(3) ar] a have b: "next_addr w \<le> a" "a < next_addr w1" by simp_all
    from step_created[OF assms(3) wf ar b]
    show "status (heap w' a) = NEW \<or> status (heap w' a) = ACKNOWLEDGED
          \<or> (status (heap w' a) = RESOLVED
              \<and> (\<exists>d j k. now_calls w \<le> j \<and> j < k \<and> autoresolve_after (heap w' a) = Some d
                         \<and> d \<le> clk k - clk j))"
      by (elim disjE conjE) simp_all
  qed
  have 4: "\<forall>t i. status (advance_status t i) = next_status (status i)"
    by (simp add: advance_status_fields)
  from 1 2 3 4 show ?thesis by (intro conjI)
qed

theorem status_never_regresses_witness:
  "wf_world aged_world
   \<and> (\<exists>pub w em w'. run_ticks counting_rng clock_1s 1 aged_world = Inr (pub, w)
         \<and> step counting_rng clock_1s w = Inr (em, w')
         \<and> map (\<lambda>a. status (heap aged_world a)) [0, 1] = [NEW, ACKNOWLEDGED]
         \<and> map (\<lambda>a. status (heap w a)) [0, 1] = [RESOLVED, ACKNOWLEDGED]
         \<and> map (\<lambda>a. status (heap w' a)) [0, 1, 2, 3] = [RESOLVED, ACKNOWLEDGED, NEW, NEW]
         \<and> rank (status (heap aged_world 0)) \<le> rank (status (heap w 0))
         \<and> rank (status (heap w 1)) \<le> rank (status (heap w' 1)))"
proof -
  have "case run_ticks counting_rng clock_1s 1 aged_world of
          Inl e \<Rightarrow> False
        | Inr r \<Rightarrow>
            (case step counting_rng clock_1s (snd r) of
               Inl e \<Rightarrow> False
             | Inr r' \<Rightarrow>
                 map (\<lambda>a. status (heap (snd r) a)) [0, 1] = [RESOLVED, ACKNOWLEDGED]
                 \<and> map (\<lambda>a. status (heap (snd r') a)) [0, 1, 2, 3]
                     = [RESOLVED, ACKNOWLEDGED, NEW, NEW]
                 \<and> next_addr (snd r) = 2)"
    by code_simp
  then obtain r where
    r0: "run_ticks counting_rng clock_1s 1 aged_world = Inr r" and
    c: "case step counting_rng clock_1s (snd r) of
               Inl e \<Rightarrow> False
             | Inr r' \<Rightarrow>
                 map (\<lambda>a. status (heap (snd r) a)) [0, 1] = [RESOLVED, ACKNOWLEDGED]
                 \<and> map (\<lambda>a. status (heap (snd r') a)) [0, 1, 2, 3]
                     = [RESOLVED, ACKNOWLEDGED, NEW, NEW]
                 \<and> next_addr (snd r) = 2"
    by (rule returned_cases)
  from c obtain r' where
    s0: "step counting_rng clock_1s (snd r) = Inr r'" and
    v: "map (\<lambda>a. status (heap (snd r) a)) [0, 1] = [RESOLVED, ACKNOWLEDGED]
                 \<and> map (\<lambda>a. status (heap (snd r') a)) [0, 1, 2, 3]
                     = [RESOLVED, ACKNOWLEDGED, NEW, NEW]
                 \<and> next_addr (snd r) = 2"
    by (rule returned_cases)
  obtain pub w where rw: "r = (pub, w)" by (cases r)
  obtain em w' where rw': "r' = (em, w')" by (cases r')
  from r0 rw have r: "run_ticks counting_rng clock_1s 1 aged_world = Inr (pub, w)" by simp
  from s0 rw rw' have s: "step counting_rng clock_1s w = Inr (em, w')" by simp
  from v rw rw' have
    m1: "map (\<lambda>a. status (heap w a)) [0, 1] = [RESOLVED, ACKNOWLEDGED]" and
    m2: "map (\<lambda>a. status (heap w' a)) [0, 1, 2, 3] = [RESOLVED, ACKNOWLEDGED, NEW, NEW]" and
    n: "next_addr w = 2"
    by simp_all
  have m0: "map (\<lambda>a. status (heap aged_world a)) [0, 1] = [NEW, ACKNOWLEDGED]"
    by code_simp
  note t = status_never_regresses[OF aged_world_facts(1) r s]
  from t aged_world_facts(7) have a: "rank (status (heap aged_world 0)) \<le> rank (status (heap w 0))"
    by simp
  from t n have b: "rank (status (heap w 1)) \<le> rank (status (heap w' 1))"
    by simp
  have "\<exists>pub w em w'. run_ticks counting_rng clock_1s 1 aged_world = Inr (pub, w)
         \<and> step counting_rng clock_1s w = Inr (em, w')
         \<and> map (\<lambda>a. status (heap aged_world a)) [0, 1] = [NEW, ACKNOWLEDGED]
         \<and> map (\<lambda>a. status (heap w a)) [0, 1] = [RESOLVED, ACKNOWLEDGED]
         \<and> map (\<lambda>a. status (heap w' a)) [0, 1, 2, 3] = [RESOLVED, ACKNOWLEDGED, NEW, NEW]
         \<and> rank (status (heap aged_world 0)) \<le> rank (status (heap w 0))
         \<and> rank (status (heap w 1)) \<le> rank (status (heap w' 1))"
    by (rule exI[of _ pub], rule exI[of _ w], rule exI[of _ em], rule exI[of _ w'])
       (intro conjI r s m0 m1 m2 a b)
  with aged_world_facts(1) show ?thesis by (rule conjI)
qed

text \<open>
  Claim C2, as the code has it. The list \<open>step\<close> returns holds the tracked incident
  objects themselves, not copies. It starts with the incidents created in the call; when
  \<open>step\<close> has returned, such an entry shows status NEW exactly if the progression
  sweep of the same call did not emit the incident again, and otherwise the status the
  sweep gave it (ACKNOWLEDGED or RESOLVED).
\<close>

theorem creation_entry_shows_state_at_return:
  assumes "wf_world w" "step np clk w = Inr (em, w')" "arrivals np clk w = Inr (cr, w1)"
  shows "take (length cr) em = cr
    \<and> (\<forall>a \<in> set cr.
          (a \<notin> set (drop (length cr) em) \<and> status (heap w' a) = NEW)
        \<or> (a \<in> set (drop (length cr) em)
            \<and> (status (heap w' a) = ACKNOWLEDGED \<or> status (heap w' a) = RESOLVED)))"
proof -
  note c = step_created[OF assms(2,1,3)]
  have "\<forall>a \<in> set cr.
          (a \<notin> set (drop (length cr) em) \<and> status (heap w' a) = NEW)
        \<or> (a \<in> set (drop (length cr) em)
            \<and> (status (heap w' a) = ACKNOWLEDGED \<or> status (heap w' a) = RESOLVED))"
  proof
    fix a assume "a \<in> set cr"
    with arrivals_frame(7)[OF assms(3)] have b: "next_addr w \<le> a" "a < next_addr w1" by simp_all
    show "(a \<notin> set (drop (length cr) em) \<and> status (heap w' a) = NEW)
        \<or> (a \<in> set (drop (length cr) em)
            \<and> (status (heap w' a) = ACKNOWLEDGED \<or> status (heap w' a) = RESOLVED))"
      using c[OF b] by (elim disjE conjE) simp_all
  qed
  with step_emitted_prefix[OF assms(2,3)] show ?thesis by (intro conjI)
qed

theorem creation_entry_shows_state_at_return_witness:
  "wf_world (start_world 4)
   \<and> (\<exists>em w' cr w1. step counting_rng clock_1s (start_world 4) = Inr (em, w')
         \<and> arrivals counting_rng clock_1s (start_world 4) = Inr (cr, w1)
         \<and> cr = [0] \<and> em = [0, 0] \<and> take (length cr) em = cr
         \<and> 0 \<in> set (drop (length cr) em) \<and> status (heap w' 0) = ACKNOWLEDGED)"
proof -
  have "case step counting_rng clock_1s (start_world 4) of
          Inl e \<Rightarrow> False
        | Inr r \<Rightarrow> fst r = [0, 0] \<and> status (heap (snd r) 0) = ACKNOWLEDGED"
    by code_simp
  then obtain r where
    s0: "step counting_rng clock_1s (start_world 4) = Inr r" and
    v: "fst r = [0, 0] \<and> status (heap (snd r) 0) = ACKNOWLEDGED"
    by (rule returned_cases)
  have "case arrivals counting_rng clock_1s (start_world 4) of
          Inl e \<Rightarrow> False
        | Inr r \<Rightarrow> fst r = [0]"
    by code_simp
  then obtain q where
    a0: "arrivals counting_rng clock_1s (start_world 4) = Inr q" and
    u: "fst q = [0]"
    by (rule returned_cases)
  obtain em w' where rw: "r = (em, w')" by (cases r)
  obtain cr w1 where qw: "q = (cr, w1)" by (cases q)
  from s0 rw have s: "step counting_rng clock_1s (start_world 4) = Inr (em, w')" by simp
  from a0 qw have a: "arrivals counting_rng clock_1s (start_world 4) = Inr (cr, w1)" by simp
  from v rw have e: "em = [0, 0]" and st: "status (heap w' 0) = ACKNOWLEDGED" by simp_all
  from u qw have c: "cr = [0]" by simp
  from creation_entry_shows_state_at_return[OF start_world_wf s a]
  have t: "take (length cr) em = cr" by simp
  from e c have d: "0 \<in> set (drop (length cr) em)" by simp
  have "\<exists>em w' cr w1. step counting_rng clock_1s (start_world 4) = Inr (em, w')
         \<and> arrivals counting_rng clock_1s (start_world 4) = Inr (cr, w1)
         \<and> cr = [0] \<and> em = [0, 0] \<and> take (length cr) em = cr
         \<and> 0 \<in> set (drop (length cr) em) \<and> status (heap w' 0) = ACKNOWLEDGED"
    by (rule exI[of _ em], rule exI[of _ w'], rule exI[of _ cr], rule exI[of _ w1])
       (intro conjI s a c e t d st)
  with start_world_wf show ?thesis by (rule conjI)
qed

text \<open>
  Claim C2 as stated fails: with the counting generator in state 4, one incident is
  created and the sweep of the same call advances it; both entries of the returned list
  are that one object, and both show ACKNOWLEDGED.
\<close>

theorem creation_entry_not_new_counterexample:
  "map_sum id fst (arrivals counting_rng clock_1s (start_world 4)) = Inr [0]
   \<and> (case step counting_rng clock_1s (start_world 4) of
         Inl e \<Rightarrow> Inl e
       | Inr (em, w') \<Rightarrow> Inr (map (\<lambda>a. (a, status (heap w' a))) em))
       = Inr [(0, ACKNOWLEDGED), (0, ACKNOWLEDGED)]"
  by code_simp

text \<open>
  Claim C8. Given numpy's range for \<open>integers\<close>, every incident created during a run
  of ticks has a location inside the configured grid, and the location of every incident
  that existed before the run is unchanged after it. (For a width or height below one,
  numpy raises and no incident is created.) Addresses are given out in the order of
  creation: the incidents created during the run are those from \<open>next_addr w\<close> up to
  \<open>next_addr w'\<close>.
\<close>

theorem locations_in_grid_and_fixed:
  assumes "integers_in_range np" "run_ticks np clk n w = Inr (pub, w')"
  shows "(\<forall>a. next_addr w \<le> a \<and> a < next_addr w' \<longrightarrow>
            in_grid (grid_width (feed w)) (grid_height (feed w)) (location (heap w' a)))
       \<and> (\<forall>a < next_addr w. location (heap w' a) = location (heap w a))"
  using run_ticks_grid[OF assms] run_ticks_frame[OF assms(2)]
  by (simp add: same_identity_def)

theorem locations_in_grid_and_fixed_witness:
  "integers_in_range counting_rng
   \<and> (\<exists>pub w'. run_ticks counting_rng clock_1s 2 aged_world = Inr (pub, w')
         \<and> next_addr aged_world = 2 \<and> next_addr w' = 4
         \<and> grid_width (feed aged_world) = 20 \<and> grid_height (feed aged_world) = 12
         \<and> map (\<lambda>a. location (heap w' a)) [0, 1, 2, 3]
             = [Some (3, 4), Some (7, 2), Some (19, 8), Some (5, 2)]
         \<and> in_grid (grid_width (feed aged_world)) (grid_height (feed aged_world))
              (location (heap w' 2))
         \<and> location (heap w' 0) = location (heap aged_world 0))"
proof -
  have "case run_ticks counting_rng clock_1s 2 aged_world of
          Inl e \<Rightarrow> False
        | Inr r \<Rightarrow> next_addr (snd r) = 4
            \<and> map (\<lambda>a. location (heap (snd r) a)) [0, 1, 2, 3]
                = [Some (3, 4), Some (7, 2), Some (19, 8), Some (5, 2)]"
    by code_simp
  then obtain r where
    r0: "run_ticks counting_rng clock_1s 2 aged_world = Inr r" and
    v: "next_addr (snd r) = 4
            \<and> map (\<lambda>a. location (heap (snd r) a)) [0, 1, 2, 3]
                = [Some (3, 4), Some (7, 2), Some (19, 8), Some (5, 2)]"
    by (rule returned_cases)
  obtain pub w' where rw: "r = (pub, w')" by (cases r)
  from r0 rw have r: "run_ticks counting_rng clock_1s 2 aged_world = Inr (pub, w')" by simp
  from v rw have n: "next_addr w' = 4" and
    m: "map (\<lambda>a. location (heap w' a)) [0, 1, 2, 3]
             = [Some (3, 4), Some (7, 2), Some (19, 8), Some (5, 2)]"
    by simp_all
  have g: "grid_width (feed aged_world) = 20" "grid_height (feed aged_world) = 12"
    by code_simp+
  note t = locations_in_grid_and_fixed[OF counting_rng_integers r]
  from t n aged_world_facts(7)
  have a: "in_grid (grid_width (feed aged_world)) (grid_height (feed aged_world))
              (location (heap w' 2))"
    by simp
  from t aged_world_facts(7)
  have b: "location (heap w' 0) = location (heap aged_world 0)" by simp
  have "\<exists>pub w'. run_ticks counting_rng clock_1s 2 aged_world = Inr (pub, w')
         \<and> next_addr aged_world = 2 \<and> next_addr w' = 4
         \<and> grid_width (feed aged_world) = 20 \<and> grid_height (feed aged_world) = 12
         \<and> map (\<lambda>a. location (heap w' a)) [0, 1, 2, 3]
             = [Some (3, 4), Some (7, 2), Some (19, 8), Some (5, 2)]
         \<and> in_grid (grid_width (feed aged_world)) (grid_height (feed aged_world))
              (location (heap w' 2))
         \<and> location (heap w' 0) = location (heap aged_world 0)"
    by (rule exI[of _ pub], rule exI[of _ w'])
       (intro conjI r aged_world_facts(7) n g m a b)
  with counting_rng_integers show ?thesis by (rule conjI)
qed

text \<open>
  Claim C5, as the code has it. From the construction of a feed or from its last
  \<open>reset()\<close>, over any number of ticks, the \<open>N\<close>-th incident created since then has
  the identifier \<open>A\<close> followed by \<open>N\<close> padded with zeros to four digits, however many
  incidents were purged in between, and the tracker's counter is the number of incidents
  created since then. Addresses are given out in the order of creation: the \<open>N\<close>-th
  incident created from the world \<open>w0\<close> on is the object at address
  \<open>next_addr w0 + N - 1\<close>.
\<close>

theorem identifiers_count_since_reset:
  assumes "world_init np s cfg bufs mc = Inr w0 \<or> w0 = IncidentsFeed_reset w_before"
    "run_ticks np clk n w0 = Inr (pub, w)" "1 \<le> N" "next_addr w0 + N \<le> next_addr w"
  shows "identifier (heap w (next_addr w0 + N - 1)) = CHR ''A'' # format_04d (int N)
       \<and> counter (tracker (feed w)) = int (next_addr w - next_addr w0)"
proof -
  from assms(1) have c: "counter (tracker (feed w0)) = 0"
    using world_init_fields(2) IncidentsFeed_reset_fields(1) by blast
  from assms(3,4) have a: "next_addr w0 \<le> next_addr w0 + N - 1" "next_addr w0 + N - 1 < next_addr w"
    by simp_all
  from run_ticks_identifiers_from[OF assms(2) a] c assms(3)
  have "identifier (heap w (next_addr w0 + N - 1)) = CHR ''A'' # format_04d (int N)"
    by (simp add: of_nat_diff)
  moreover from run_ticks_frame[OF assms(2)] c
  have "counter (tracker (feed w)) = int (next_addr w - next_addr w0)" by simp
  ultimately show ?thesis by simp
qed

theorem identifiers_count_since_reset_witness:
  "world_init counting_rng 1 default_feeds default_buffers default_map = Inr (start_world 1)
   \<and> (\<exists>pub w. run_ticks counting_rng clock_1000s 2 (start_world 1) = Inr (pub, w)
         \<and> next_addr (start_world 1) = 0 \<and> next_addr w = 3 \<and> active (tracker (feed w)) = []
         \<and> identifier (heap w (next_addr (start_world 1) + 3 - 1)) = CHR ''A'' # format_04d (int 3)
         \<and> identifier (heap w 2) = ''A0003'')
   \<and> (\<exists>pub w. run_ticks counting_rng clock_1s 2 (IncidentsFeed_reset aged_world) = Inr (pub, w)
         \<and> next_addr (IncidentsFeed_reset aged_world) = 2 \<and> next_addr w = 3
         \<and> identifier (heap w (next_addr (IncidentsFeed_reset aged_world) + 1 - 1))
             = CHR ''A'' # format_04d (int 1)
         \<and> identifier (heap w 2) = ''A0001'')
   \<and> CHR ''A'' # format_04d 4 = ''A0004''"
proof -
  have i: "world_init counting_rng 1 default_feeds default_buffers default_map
             = Inr (start_world 1)"
    using world_init_counting[of 1] by simp
  have "case run_ticks counting_rng clock_1000s 2 (start_world 1) of
          Inl e \<Rightarrow> False
        | Inr r \<Rightarrow> next_addr (snd r) = 3 \<and> active (tracker (feed (snd r))) = []
            \<and> identifier (heap (snd r) 2) = ''A0003''"
    by code_simp
  then obtain r where
    r0: "run_ticks counting_rng clock_1000s 2 (start_world 1) = Inr r" and
    v: "next_addr (snd r) = 3 \<and> active (tracker (feed (snd r))) = []
            \<and> identifier (heap (snd r) 2) = ''A0003''"
    by (rule returned_cases)
  obtain pub w where rw: "r = (pub, w)" by (cases r)
  from r0 rw have r: "run_ticks counting_rng clock_1000s 2 (start_world 1) = Inr (pub, w)"
    by simp
  from v rw have n: "next_addr w = 3" and k: "active (tracker (feed w)) = []"
    and x: "identifier (heap w 2) = ''A0003''"
    by simp_all
  have z: "next_addr (start_world 1) = 0" by (simp add: start_world_def)
  have h: "world_init counting_rng 1 default_feeds default_buffers default_map = Inr (start_world 1)
      \<or> start_world 1 = IncidentsFeed_reset aged_world"
    using i by (rule disjI1)
  have "(1::nat) \<le> 3" by simp
  moreover have "next_addr (start_world 1) + 3 \<le> next_addr w" using n z by simp
  ultimately have
    t: "identifier (heap w (next_addr (start_world 1) + 3 - 1)) = CHR ''A'' # format_04d (int 3)"
    using identifiers_count_since_reset[OF h r, of 3] by simp
  have A: "\<exists>pub w. run_ticks counting_rng clock_1000s 2 (start_world 1) = Inr (pub, w)
         \<and> next_addr (start_world 1) = 0 \<and> next_addr w = 3 \<and> active (tracker (feed w)) = []
         \<and> identifier (heap w (next_addr (start_world 1) + 3 - 1)) = CHR ''A'' # format_04d (int 3)
         \<and> identifier (heap w 2) = ''A0003''"
    by (rule exI[of _ pub], rule exI[of _ w]) (intro conjI r z n k t x)
  have "case run_ticks counting_rng clock_1s 2 (IncidentsFeed_reset aged_world) of
          Inl e \<Rightarrow> False
        | Inr r \<Rightarrow> next_addr (snd r) = 3 \<and> identifier (heap (snd r) 2) = ''A0001''"
    by code_simp
  then obtain r' where
    r0': "run_ticks counting_rng clock_1s 2 (IncidentsFeed_reset aged_world) = Inr r'" and
    v': "next_addr (snd r') = 3 \<and> identifier (heap (snd r') 2) = ''A0001''"
    by (rule returned_cases)
  obtain pub' w' where rw': "r' = (pub', w')" by (cases r')
  from r0' rw' have r': "run_ticks counting_rng clock_1s 2 (IncidentsFeed_reset aged_world) = Inr (pub', w')"
    by simp
  from v' rw' have n': "next_addr w' = 3" and x': "identifier (heap w' 2) = ''A0001''"
    by simp_all
  have z': "next_addr (IncidentsFeed_reset aged_world) = 2"
    by (simp add: IncidentsFeed_reset_fields aged_world_facts)
  have h': "world_init counting_rng 1 default_feeds default_buffers default_map
              = Inr (IncidentsFeed_reset aged_world)
      \<or> IncidentsFeed_reset aged_world = IncidentsFeed_reset aged_world"
    by (rule disjI2) (rule refl)
  have "(1::nat) \<le> 1" by simp
  moreover have "next_addr (IncidentsFeed_reset aged_world) + 1 \<le> next_addr w'"
    using n' z' by simp
  ultimately have
    t': "identifier (heap w' (next_addr (IncidentsFeed_reset aged_world) + 1 - 1))
           = CHR ''A'' # format_04d (int 1)"
    using identifiers_count_since_reset[OF h' r', of 1] by simp
  have B: "\<exists>pub w. run_ticks counting_rng clock_1s 2 (IncidentsFeed_reset aged_world) = Inr (pub, w)
         \<and> next_addr (IncidentsFeed_reset aged_world) = 2 \<and> next_addr w = 3
         \<and> identifier (heap w (next_addr (IncidentsFeed_reset aged_world) + 1 - 1))
             = CHR ''A'' # format_04d (int 1)
         \<and> identifier (heap w 2) = ''A0001''"
    by (rule exI[of _ pub'], rule exI[of _ w']) (intro conjI r' z' n' t' x')
  have f: "CHR ''A'' # format_04d 4 = ''A0004''" by code_simp
  from i A B f show ?thesis by (intro conjI)
qed

text \<open>
  Claim C5 as stated, for all incidents one feed instance creates, fails:
  \<open>IncidentsFeed.reset\<close> installs a new tracker, whose counter starts at zero. With the
  counting generator in state 1, one tick creates one incident; after a reset, the next
  tick creates the second and third incident of the instance, with the identifiers A0001
  and A0002.
\<close>

theorem numbering_restarts_after_reset_counterexample:
  "(case run_ticks counting_rng clock_1000s 1 (start_world 1) of
      Inl e \<Rightarrow> Inl e
    | Inr (pub, w) \<Rightarrow>
        (case run_ticks counting_rng clock_1000s 1 (IncidentsFeed_reset w) of
           Inl e \<Rightarrow> Inl e
         | Inr (pub', w') \<Rightarrow>
             Inr (next_addr w, next_addr w', map (\<lambda>a. identifier (heap w' a)) [0, 1, 2])))
   = Inr (1, 3, [''A0001'', ''A0001'', ''A0002''])"
  by code_simp

section \<open>IncidentsFeed: same seed, same trace\<close>




end
